theory Spec2Isabelle
  imports Complex_Main
begin

section \<open>Regular expressions: the fragment of Python's \<open>re\<close> used by the crawler\<close>

text \<open>
  \<open>fetcher.py\<close> classifies a URL with \<open>re.search(pattern, url, re.IGNORECASE)\<close>.
  The patterns of \<open>config.py\<close> use literal characters, the class \<open>\d\<close>, bracket
  sets (\<open>[s]\<close>, \<open>[^/]\<close>, \<open>[\?&]\<close>), the quantifiers \<open>?\<close> and \<open>+\<close>, capturing
  groups around a plain sequence, and the anchor \<open>$\<close>. That fragment is modelled here.
  Characters are the 8-bit characters of HOL, so letter case is ASCII letter case.
\<close>

datatype atom = Lit char | Digit | OneOf "char list" | NoneOf "char list"

datatype quant = Once | ZeroOrOne | OneOrMore | ZeroOrMore

datatype node = Atom atom quant | Eol

type_synonym regex = "node list"

definition lower :: "char \<Rightarrow> char" where
  "lower c = (let n = (of_char c :: nat) in if 65 \<le> n \<and> n \<le> 90 then char_of (n + 32) else c)"

definition is_digit :: "char \<Rightarrow> bool" where
  "is_digit c = (let n = (of_char c :: nat) in 48 \<le> n \<and> n \<le> 57)"

definition is_alnum :: "char \<Rightarrow> bool" where
  "is_alnum c = (let n = (of_char (lower c) :: nat) in (48 \<le> n \<and> n \<le> 57) \<or> (97 \<le> n \<and> n \<le> 122))"

text \<open>One character against one atom, ignoring letter case (\<open>re.IGNORECASE\<close>).\<close>

fun atom_ok :: "atom \<Rightarrow> char \<Rightarrow> bool" where
  "atom_ok (Lit c) x = (lower x = lower c)"
| "atom_ok Digit x = is_digit x"
| "atom_ok (OneOf cs) x = list_ex (\<lambda>c. lower x = lower c) cs"
| "atom_ok (NoneOf cs) x = (\<not> list_ex (\<lambda>c. lower x = lower c) cs)"

text \<open>
  \<open>match_here r s\<close>: the pattern matches a prefix of \<open>s\<close>. Without \<open>re.MULTILINE\<close>
  the anchor \<open>$\<close> matches at the end of the string and just before a newline that ends it.
\<close>

fun match_here :: "regex \<Rightarrow> string \<Rightarrow> bool" where
  "match_here [] s = True"
| "match_here (Eol # r) s = ((s = [] \<or> s = [CHR 0x0A]) \<and> match_here r s)"
| "match_here (Atom a Once # r) [] = False"
| "match_here (Atom a Once # r) (c # cs) = (atom_ok a c \<and> match_here r cs)"
| "match_here (Atom a ZeroOrOne # r) [] = match_here r []"
| "match_here (Atom a ZeroOrOne # r) (c # cs) =
     ((atom_ok a c \<and> match_here r cs) \<or> match_here r (c # cs))"
| "match_here (Atom a OneOrMore # r) [] = False"
| "match_here (Atom a OneOrMore # r) (c # cs) =
     (atom_ok a c \<and> (match_here (Atom a OneOrMore # r) cs \<or> match_here r cs))"
| "match_here (Atom a ZeroOrMore # r) [] = match_here r []"
| "match_here (Atom a ZeroOrMore # r) (c # cs) =
     ((atom_ok a c \<and> match_here (Atom a ZeroOrMore # r) cs) \<or> match_here r (c # cs))"

text \<open>\<open>re.search\<close>: a match that starts at some position of the string.\<close>

fun re_search :: "regex \<Rightarrow> string \<Rightarrow> bool" where
  "re_search r [] = match_here r []"
| "re_search r (c # cs) = (match_here r (c # cs) \<or> re_search r cs)"

definition lits :: "string \<Rightarrow> regex" where
  "lits s = map (\<lambda>c. Atom (Lit c) Once) s"

subsection \<open>Reading a pattern string\<close>

text \<open>
  The pattern strings of \<open>config.py\<close> are read by \<open>re_compile\<close>; a pattern outside
  the fragment gives \<open>None\<close>. A group is accepted when no quantifier follows it and it
  holds no alternation, so that dropping its parentheses does not change whether the
  pattern matches.
\<close>

definition bslash :: char where
  "bslash = CHR 0x5C"

datatype mode = Top bool | Esc | SetStart | InSet bool "char list" | SetEsc bool "char list"

definition set_atom :: "bool \<Rightarrow> char list \<Rightarrow> atom" where
  "set_atom neg cs = (if neg then NoneOf (rev cs) else OneOf (rev cs))"

definition quantify :: "quant \<Rightarrow> regex \<Rightarrow> regex option" where
  "quantify q acc = (case acc of Atom a Once # rest \<Rightarrow> Some (Atom a q # rest) | _ \<Rightarrow> None)"

text \<open>
  \<open>re_parse m d acc s\<close>: \<open>m\<close> is the lexical mode (\<open>Top q\<close>: at top level, \<open>q\<close> when the
  node read last may take a quantifier), \<open>d\<close> the number of open groups, \<open>acc\<close> the nodes
  read so far, last first.
\<close>

fun re_parse :: "mode \<Rightarrow> nat \<Rightarrow> regex \<Rightarrow> string \<Rightarrow> regex option" where
  "re_parse (Top q) d acc [] = (if d = 0 then Some (rev acc) else None)"
| "re_parse (Top q) d acc (c # cs) =
     (if c = bslash then re_parse Esc d acc cs
      else if c = CHR ''['' then re_parse SetStart d acc cs
      else if c = CHR ''('' then
        (case cs of [] \<Rightarrow> None
         | x # _ \<Rightarrow> if x = CHR ''?'' then None else re_parse (Top False) (Suc d) acc cs)
      else if c = CHR '')'' then
        (if d = 0 then None else re_parse (Top False) (d - 1) acc cs)
      else if c = CHR ''$'' then re_parse (Top False) d (Eol # acc) cs
      else if c = CHR ''?'' \<or> c = CHR ''+'' \<or> c = CHR ''*'' then
        (if \<not> q then None
         else case quantify (if c = CHR ''?'' then ZeroOrOne else if c = CHR ''+'' then OneOrMore else ZeroOrMore) acc of
                None \<Rightarrow> None
              | Some acc' \<Rightarrow> re_parse (Top False) d acc' cs)
      else if c \<in> set ''.^|{}]'' then None
      else re_parse (Top True) d (Atom (Lit c) Once # acc) cs)"
| "re_parse Esc d acc [] = None"
| "re_parse Esc d acc (c # cs) =
     (if c = CHR ''d'' then re_parse (Top True) d (Atom Digit Once # acc) cs
      else if is_alnum c then None
      else re_parse (Top True) d (Atom (Lit c) Once # acc) cs)"
| "re_parse SetStart d acc [] = None"
| "re_parse SetStart d acc (c # cs) =
     (if c = CHR ''^'' then re_parse (InSet True []) d acc cs
      else if c = CHR '']'' \<or> c = CHR ''-'' \<or> c = CHR ''['' then None
      else if c = bslash then re_parse (SetEsc False []) d acc cs
      else re_parse (InSet False [c]) d acc cs)"
| "re_parse (InSet neg ms) d acc [] = None"
| "re_parse (InSet neg ms) d acc (c # cs) =
     (if c = CHR '']'' then
        (if ms = [] then None else re_parse (Top True) d (Atom (set_atom neg ms) Once # acc) cs)
      else if c = CHR ''-'' \<or> c = CHR ''['' then None
      else if c = bslash then re_parse (SetEsc neg ms) d acc cs
      else re_parse (InSet neg (c # ms)) d acc cs)"
| "re_parse (SetEsc neg ms) d acc [] = None"
| "re_parse (SetEsc neg ms) d acc (c # cs) =
     (if is_alnum c then None else re_parse (InSet neg (c # ms)) d acc cs)"

definition re_compile :: "string \<Rightarrow> regex option" where
  "re_compile p = re_parse (Top False) 0 [] p"

definition compile_all :: "string list \<Rightarrow> regex list" where
  "compile_all ps = List.map_filter re_compile ps"

section \<open>Configuration (\<open>config.py\<close>)\<close>

text \<open>
  The fields of \<open>CrawlerConfig\<close> that the fetcher's logic reads. The pattern lists hold
  compiled patterns. \<open>max_depth\<close> is a class attribute of the source with value 3.
  The fields that only configure the HTTP transport, the thread pool and the console
  (\<open>max_connections_per_host\<close>, \<open>timeout\<close>, \<open>num_workers\<close>, \<open>verbose\<close>)
  have no counterpart here.
\<close>

record config =
  max_pages_per_domain :: int
  max_concurrent_requests :: int
  batch_size :: int
  request_delay :: real
  max_retries :: int
  max_depth :: int
  product_patterns :: "regex list"
  category_patterns :: "regex list"
  pagination_patterns :: "regex list"

definition default_product_patterns :: "regex list" where
  "default_product_patterns = compile_all
     [''/product[s]?/'',
      ''/item/'',
      ''/p/'',
      ''/dp/'',
      ''-p-'' @ bslash # ''d+'',
      ''/[^/]+/[^/]+/[^/]+-'' @ bslash # ''d+/buy$'',
      ''/'' @ bslash # ''d+/buy$'']"

definition default_category_patterns :: "regex list" where
  "default_category_patterns = compile_all
     [''/category/'',
      ''/c/'',
      ''/collections?/'',
      ''/shop/'',
      ''/[^/]+/[^/]+$'']"

definition default_pagination_patterns :: "regex list" where
  "default_pagination_patterns = compile_all
     [''page=('' @ bslash # ''d+)'',
      ''p=('' @ bslash # ''d+)'',
      ''/page/('' @ bslash # ''d+)'',
      ''/p/('' @ bslash # ''d+)'',
      ''offset=('' @ bslash # ''d+)'',
      ''['' @ bslash # ''?&]page=('' @ bslash # ''d+)'']"

text \<open>The dataclass constructor followed by \<open>__post_init__\<close>.\<close>

definition CrawlerConfig ::
  "int \<Rightarrow> int \<Rightarrow> int \<Rightarrow> real \<Rightarrow> int \<Rightarrow> regex list option \<Rightarrow> regex list option
     \<Rightarrow> regex list option \<Rightarrow> config" where
  "CrawlerConfig pages concurrent batch delay retries pp cp gp =
     \<lparr> max_pages_per_domain = pages,
       max_concurrent_requests = concurrent,
       batch_size = batch,
       request_delay = delay,
       max_retries = retries,
       max_depth = 3,
       product_patterns = (case pp of None \<Rightarrow> default_product_patterns | Some ps \<Rightarrow> ps),
       category_patterns = (case cp of None \<Rightarrow> default_category_patterns | Some ps \<Rightarrow> ps),
       pagination_patterns = (case gp of None \<Rightarrow> default_pagination_patterns | Some ps \<Rightarrow> ps) \<rparr>"

definition default_config :: config where
  "default_config = CrawlerConfig 50 10 50 (1 / 2) 2 None None None"

section \<open>URL classifier (\<open>fetcher.py\<close>)\<close>

definition is_product_url :: "config \<Rightarrow> string \<Rightarrow> bool" where
  "is_product_url cfg url = list_ex (\<lambda>pattern. re_search pattern url) (product_patterns cfg)"

definition is_category_url :: "config \<Rightarrow> string \<Rightarrow> bool" where
  "is_category_url cfg url = list_ex (\<lambda>pattern. re_search pattern url) (category_patterns cfg)"

definition is_pagination_url :: "config \<Rightarrow> string \<Rightarrow> bool" where
  "is_pagination_url cfg url = list_ex (\<lambda>pattern. re_search pattern url) (pagination_patterns cfg)"

section \<open>The environment: server, markup parser, URL resolution\<close>

text \<open>
  What \<open>session.get\<close> gives for one request: a response with its status code and body,
  or an exception raised while the request or the reading of the body is under way.
\<close>

datatype outcome = Status int string | Transport_error

text \<open>
  The collaborators outside the repository. \<open>server w n url\<close> is the outcome of the
  request for \<open>url\<close> when \<open>n\<close> requests have been issued before it; \<open>find_all_a\<close> stands
  for \<open>BeautifulSoup(content).find_all('a', href=True)\<close> and gives the \<open>href\<close> values in
  document order; \<open>urljoin\<close> is \<open>urllib.parse.urljoin\<close>.
\<close>

record world =
  server :: "nat \<Rightarrow> string \<Rightarrow> outcome"
  find_all_a :: "string \<Rightarrow> string list"
  urljoin :: "string \<Rightarrow> string \<Rightarrow> string"

text \<open>
  The observable events of a run, in the order of the steps that make them: the
  rate-limit sleep before a request,
  the request, the back-off sleep before a retry (in seconds), and the start of a
  \<open>crawl_category_pages\<close> coroutine together with the place that created it.
\<close>

datatype site = From_batch | From_subcategories | From_pagination

datatype event = Delay real | Get string | Backoff nat | Crawl site string nat

fun is_get :: "event \<Rightarrow> bool" where
  "is_get (Get u) = True"
| "is_get e = False"

definition n_requests :: "event list \<Rightarrow> nat" where
  "n_requests tr = length (filter is_get tr)"

section \<open>Crawl state (\<open>UrlsFetcher.__init__\<close>)\<close>

text \<open>
  The three \<open>defaultdict(set)\<close> of the fetcher are functions from the domain to the
  members of its set; a set is a duplicate-free list in order of first insertion, so that
  \<open>len\<close> is \<open>length\<close> and \<open>list(s)\<close> is the list itself. (Python leaves the
  iteration order of a set open; the model fixes insertion order.) \<open>free_slots\<close> is the
  value of \<open>self.semaphore\<close>, and \<open>trace\<close> holds the events so far.
\<close>

record state =
  visited_categories :: "string \<Rightarrow> string list"
  product_urls :: "string \<Rightarrow> string list"
  visited_urls :: "string \<Rightarrow> string list"
  free_slots :: nat
  trace :: "event list"

text \<open>
  The state of a new fetcher. (\<open>Semaphore(value)\<close> raises \<open>ValueError\<close> for a negative
  value: for a configuration with a negative \<open>max_concurrent_requests\<close> there is no
  fetcher, and \<open>init_state\<close> stands for none.)
\<close>

definition init_state :: "config \<Rightarrow> state" where
  "init_state cfg = \<lparr> visited_categories = (\<lambda>d. []), product_urls = (\<lambda>d. []),
                       visited_urls = (\<lambda>d. []),
                       free_slots = nat (max_concurrent_requests cfg), trace = [] \<rparr>"

definition set_add :: "'a list \<Rightarrow> 'a \<Rightarrow> 'a list" where
  "set_add xs x = (if x \<in> set xs then xs else xs @ [x])"

definition set_update :: "'a list \<Rightarrow> 'a list \<Rightarrow> 'a list" where
  "set_update xs ys = foldl set_add xs ys"

section \<open>Fetch client (\<open>UrlsFetcher.fetch_url\<close>)\<close>

definition delay_events :: "config \<Rightarrow> event list" where
  "delay_events cfg = (if request_delay cfg > 0 then [Delay (request_delay cfg)] else [])"

text \<open>
  One pass through the body of \<open>fetch_url\<close> with \<open>retry_count\<close>, for a caller that has
  found a free slot of the semaphore: the slot is taken, the rate-limit sleep and the
  request follow, and the response decides. Between taking the slot and the response the
  coroutine touches nothing that it shares with others, so the pass is one step of the
  coroutine. \<open>None\<close>: the back-off sleep is over and \<open>fetch_url\<close> is about to call
  itself with \<open>retry_count + 1\<close>, inside \<open>async with self.semaphore\<close>, so the slot
  stays taken (an \<open>asyncio.Semaphore\<close> does not know its holder: the inner call needs
  a further slot). \<open>Some content\<close>: \<open>fetch_url\<close> returns \<open>content\<close>, and the nested
  \<open>async with\<close> blocks give back the \<open>retry_count + 1\<close> slots taken by this call and
  the calls around it.
\<close>

definition attempt :: "config \<Rightarrow> world \<Rightarrow> string \<Rightarrow> nat \<Rightarrow> state \<Rightarrow> state \<times> string option option" where
  "attempt cfg w url retry_count s =
     (let tr1 = trace s @ delay_events cfg;
          tr2 = tr1 @ [Get url];
          again = (s\<lparr>free_slots := free_slots s - 1,
                     trace := tr2 @ [Backoff (2 ^ retry_count)]\<rparr>, None);
          return = (\<lambda>content. (s\<lparr>free_slots := free_slots s - 1 + (retry_count + 1),
                                   trace := tr2\<rparr>, Some content))
      in case server w (n_requests tr1) url of
           Status code body \<Rightarrow>
             if code = 200 then return (Some body)
             else if code = 429 \<and> int retry_count < max_retries cfg then again
             else return None
         | Transport_error \<Rightarrow>
             if int retry_count < max_retries cfg then again else return None)"

text \<open>
  \<open>fetch_url\<close> when no other coroutine runs: \<open>Blocked\<close> when it waits for a slot of the
  semaphore that nobody will give back. \<open>fetch_from\<close> is the call with \<open>retry_count\<close>
  made from inside \<open>retry_count\<close> enclosing calls.
\<close>

datatype fetched = Returned "string option" | Blocked

function fetch_from :: "config \<Rightarrow> world \<Rightarrow> string \<Rightarrow> nat \<Rightarrow> state \<Rightarrow> state \<times> fetched" where
  "fetch_from cfg w url retry_count s =
     (if free_slots s = 0 then (s, Blocked)
      else case snd (attempt cfg w url retry_count s) of
             None \<Rightarrow> fetch_from cfg w url (retry_count + 1) (fst (attempt cfg w url retry_count s))
           | Some content \<Rightarrow> (fst (attempt cfg w url retry_count s), Returned content))"
  by pat_completeness auto
termination
  by (relation "measure (\<lambda>(cfg, w, url, retry_count, s). nat (max_retries cfg - int retry_count))")
     (auto simp: attempt_def Let_def split: outcome.splits if_splits)

declare fetch_from.simps [simp del]

definition fetch_url :: "config \<Rightarrow> world \<Rightarrow> string \<Rightarrow> state \<Rightarrow> state \<times> fetched" where
  "fetch_url cfg w url s = fetch_from cfg w url 0 s"

text \<open>
  The outcomes after which the source tries again (while \<open>retry_count < max_retries\<close>):
  a response with status 429, and an exception. \<open>retry_schedule cfg url m\<close> is the trace
  of a fetch whose \<open>m + 1\<close> attempts all fail in that way.
\<close>

fun retryable :: "outcome \<Rightarrow> bool" where
  "retryable (Status code body) = (code = 429)"
| "retryable Transport_error = True"

definition attempt_events :: "config \<Rightarrow> string \<Rightarrow> nat \<Rightarrow> nat \<Rightarrow> event list" where
  "attempt_events cfg url m i =
     delay_events cfg @ [Get url] @ (if i < m then [Backoff (2 ^ i)] else [])"

definition retry_schedule :: "config \<Rightarrow> string \<Rightarrow> nat \<Rightarrow> event list" where
  "retry_schedule cfg url m = concat (map (attempt_events cfg url m) [0..<Suc m])"

section \<open>Page processing (\<open>UrlsFetcher.process_page\<close>)\<close>

text \<open>One turn of the loop over the links: \<open>if\<close> product, \<open>elif\<close> category, then \<open>if\<close> pagination.\<close>

definition classify_link ::
  "config \<Rightarrow> string list \<Rightarrow> string list \<times> string list \<times> string list \<Rightarrow> string
     \<Rightarrow> string list \<times> string list \<times> string list" where
  "classify_link cfg visited acc full_url =
     (case acc of (products, subcategories, pagination_links) \<Rightarrow>
        (case (if is_product_url cfg full_url
                 then (set_add products full_url, subcategories)
               else if is_category_url cfg full_url \<and> full_url \<notin> set visited
                 then (products, set_add subcategories full_url)
               else (products, subcategories)) of
           (products', subcategories') \<Rightarrow>
             (products', subcategories',
              if is_pagination_url cfg full_url then set_add pagination_links full_url
              else pagination_links)))"

definition page_links :: "world \<Rightarrow> string \<Rightarrow> string \<Rightarrow> string list" where
  "page_links w domain body = map (urljoin w (''https://'' @ domain)) (find_all_a w body)"

text \<open>The part of \<open>process_page\<close> after the markup is parsed.\<close>

definition classify_page ::
  "config \<Rightarrow> world \<Rightarrow> string \<Rightarrow> state \<Rightarrow> string \<Rightarrow> string list \<times> string list \<times> string list" where
  "classify_page cfg w domain s body =
     foldl (classify_link cfg (visited_categories s domain)) ([], [], []) (page_links w domain body)"

text \<open>
  \<open>process_page\<close> when no other coroutine runs; \<open>None\<close> when its fetch never returns.
\<close>

definition process_page ::
  "config \<Rightarrow> world \<Rightarrow> string \<Rightarrow> string \<Rightarrow> state
     \<Rightarrow> state \<times> (string list \<times> string list \<times> string list) option" where
  "process_page cfg w domain page_url s =
     (case fetch_url cfg w page_url s of
        (s', Blocked) \<Rightarrow> (s', None)
      | (s', Returned content) \<Rightarrow>
          (case content of
             None \<Rightarrow> (s', Some ([], [], []))
           | Some body \<Rightarrow>
               if body = [] then (s', Some ([], [], []))
               else (s', Some (classify_page cfg w domain s' body))))"

section \<open>Traversal (\<open>UrlsFetcher.crawl_category_pages\<close>)\<close>

text \<open>
  \<open>xs[:k]\<close> of Python: a negative \<open>k\<close> counts from the end of the list.
\<close>

definition py_slice_to :: "'a list \<Rightarrow> int \<Rightarrow> 'a list" where
  "py_slice_to xs k = (if 0 \<le> k then take (nat k) xs else take (nat (int (length xs) + k)) xs)"

text \<open>
  A coroutine object \<open>crawl_category_pages(domain, url, depth)\<close>, together with the
  place of the source that created it.
\<close>

type_synonym coroutine = "site \<times> string \<times> nat"

text \<open>
  The coroutines that the block \<open>if depth < self.config.max_depth and subcategories:\<close>
  collects in \<open>subcategory_tasks\<close>, and those that \<open>if pagination_links:\<close> collects in
  \<open>pagination_tasks\<close>.
\<close>

definition subcategory_tasks :: "config \<Rightarrow> state \<Rightarrow> string \<Rightarrow> string list \<Rightarrow> nat \<Rightarrow> coroutine list" where
  "subcategory_tasks cfg s domain subcategories depth =
     (if int depth < max_depth cfg \<and> subcategories \<noteq> [] then
        let remaining_pages = max_pages_per_domain cfg - int (length (visited_categories s domain))
        in map (\<lambda>page_url. (From_subcategories, page_url, depth + 1))
             (filter (\<lambda>page_url. page_url \<notin> set (visited_categories s domain))
                (py_slice_to subcategories remaining_pages))
      else [])"

definition pagination_tasks :: "state \<Rightarrow> string \<Rightarrow> string list \<Rightarrow> nat \<Rightarrow> coroutine list" where
  "pagination_tasks s domain pagination_links depth =
     (if pagination_links \<noteq> [] then
        map (\<lambda>page_url. (From_pagination, page_url, depth))
          (filter (\<lambda>page_url. page_url \<notin> set (visited_categories s domain)) pagination_links)
      else [])"

definition mark_visited :: "string \<Rightarrow> string \<Rightarrow> state \<Rightarrow> state" where
  "mark_visited domain url s =
     s\<lparr>visited_categories := (visited_categories s)(domain := set_add (visited_categories s domain) url)\<rparr>"

definition add_products :: "string \<Rightarrow> string list \<Rightarrow> state \<Rightarrow> state" where
  "add_products domain products s =
     s\<lparr>product_urls := (product_urls s)(domain := set_update (product_urls s domain) products)\<rparr>"

definition emit :: "event \<Rightarrow> state \<Rightarrow> state" where
  "emit e s = s\<lparr>trace := trace s @ [e]\<rparr>"

text \<open>
  Coroutines run interleaved on one event loop: one runs until it has to wait, then any
  other that can go on does. \<open>asyncio.gather\<close> starts every coroutine it is given, and
  each of them gets as far as its first wait (so it has marked its URL visited) before
  the page of any of them is there. The order in which waiting coroutines go on depends
  on the timing of the network: here every order is a run. A \<open>crawl_category_pages\<close>
  coroutine is, between two of its waits,
  \<^item> \<open>Start\<close>: created by \<open>gather\<close>, not yet run;
  \<^item> \<open>Fetch u d k\<close>: past the visited check, \<open>u\<close> marked, inside \<open>fetch_url\<close> with
    \<open>k\<close> attempts made and their \<open>k\<close> slots held, waiting for a slot or a response;
  \<^item> \<open>Parse\<close>: the body is there, the markup parser runs in the thread pool;
  \<^item> \<open>Subs d pagination_links cs\<close>: in \<open>await asyncio.gather(*subcategory_tasks)\<close>, with the
    children \<open>cs\<close>;
  \<^item> \<open>Pags d cs\<close>: in \<open>await asyncio.gather(*pagination_tasks)\<close>;
  \<^item> \<open>Done\<close>: returned.
\<close>

datatype task =
    Start site string nat
  | Fetch string nat nat
  | Parse string nat string
  | Subs nat "string list" "task list"
  | Pags nat "task list"
  | Done

fun is_done :: "task \<Rightarrow> bool" where
  "is_done Done = True"
| "is_done t = False"

definition create_task :: "coroutine \<Rightarrow> task" where
  "create_task c = (case c of (site, url, depth) \<Rightarrow> Start site url depth)"

text \<open>Lines 133 to 136: the visited and depth check, then the mark.\<close>

definition crawl_enter :: "config \<Rightarrow> string \<Rightarrow> site \<Rightarrow> string \<Rightarrow> nat \<Rightarrow> state \<Rightarrow> state \<times> task" where
  "crawl_enter cfg domain site start_url depth s0 =
     (let s = emit (Crawl site start_url depth) s0 in
      if start_url \<in> set (visited_categories s domain) \<or> int depth > max_depth cfg then (s, Done)
      else (mark_visited domain start_url s, Fetch start_url depth 0))"

text \<open>
  Lines 156 to 165. With no pagination task the coroutine returns.
\<close>

definition crawl_paginate :: "state \<Rightarrow> string \<Rightarrow> string list \<Rightarrow> nat \<Rightarrow> task" where
  "crawl_paginate s domain pagination_links depth =
     (case pagination_tasks s domain pagination_links depth of
        [] \<Rightarrow> Done
      | c # cs \<Rightarrow> Pags depth (map create_task (c # cs)))"

text \<open>
  What follows a \<open>fetch_url\<close> that returned. Without content \<open>process_page\<close> returns empty
  collections and \<open>crawl_category_pages\<close> returns at once.
\<close>

definition crawl_fetched :: "string \<Rightarrow> nat \<Rightarrow> string option \<Rightarrow> task" where
  "crawl_fetched url depth content =
     (case content of None \<Rightarrow> Done | Some body \<Rightarrow> if body = [] then Done else Parse url depth body)"

text \<open>
  From the parsed markup to the next wait: the links are classified against the visited
  set of this moment, the products are added, the subcategory tasks are collected (lines
  139 to 154), and without any the pagination tasks are.
\<close>

definition crawl_expand :: "config \<Rightarrow> world \<Rightarrow> string \<Rightarrow> nat \<Rightarrow> string \<Rightarrow> state \<Rightarrow> state \<times> task" where
  "crawl_expand cfg w domain depth body s =
     (case classify_page cfg w domain s body of
        (products, subcategories, pagination_links) \<Rightarrow>
          let s3 = add_products domain products s in
          case subcategory_tasks cfg s3 domain subcategories depth of
            [] \<Rightarrow> (s3, crawl_paginate s3 domain pagination_links depth)
          | c # cs \<Rightarrow> (s3, Subs depth pagination_links (map create_task (c # cs))))"

text \<open>
  All the ways in which a coroutine, or one coroutine of a list, can take its next step in
  the state \<open>s\<close>. A coroutine that waits in \<open>gather\<close> goes on when all its children have
  returned; until then its children step.
\<close>

fun crawl_category_pages :: "config \<Rightarrow> world \<Rightarrow> string \<Rightarrow> state \<Rightarrow> task \<Rightarrow> (state \<times> task) list"
  and gather :: "config \<Rightarrow> world \<Rightarrow> string \<Rightarrow> state \<Rightarrow> task list \<Rightarrow> (state \<times> task list) list" where
  "crawl_category_pages cfg w domain s (Start site url depth) = [crawl_enter cfg domain site url depth s]"
| "crawl_category_pages cfg w domain s (Fetch url depth retry_count) =
     (if free_slots s = 0 then []
      else [(fst (attempt cfg w url retry_count s),
             case snd (attempt cfg w url retry_count s) of
               None \<Rightarrow> Fetch url depth (retry_count + 1)
             | Some content \<Rightarrow> crawl_fetched url depth content)])"
| "crawl_category_pages cfg w domain s (Parse url depth body) = [crawl_expand cfg w domain depth body s]"
| "crawl_category_pages cfg w domain s (Subs depth pagination_links cs) =
     (if list_all is_done cs then [(s, crawl_paginate s domain pagination_links depth)]
      else map (\<lambda>(s', cs'). (s', Subs depth pagination_links cs')) (gather cfg w domain s cs))"
| "crawl_category_pages cfg w domain s (Pags depth cs) =
     (if list_all is_done cs then [(s, Done)]
      else map (\<lambda>(s', cs'). (s', Pags depth cs')) (gather cfg w domain s cs))"
| "crawl_category_pages cfg w domain s Done = []"
| "gather cfg w domain s [] = []"
| "gather cfg w domain s (t # ts) =
     map (\<lambda>(s', t'). (s', t' # ts)) (crawl_category_pages cfg w domain s t)
     @ map (\<lambda>(s', ts'). (s', t # ts')) (gather cfg w domain s ts)"

section \<open>Domain entry (\<open>UrlsFetcher.crawl_domain\<close>, \<open>process_batch\<close>, \<open>crawl_domains\<close>)\<close>

text \<open>\<open>s.replace(old, '')\<close>: every occurrence of \<open>old\<close>, found from left to right, is removed.\<close>

function remove_all :: "string \<Rightarrow> string \<Rightarrow> string" where
  "remove_all old [] = []"
| "remove_all old (c # cs) =
     (if old \<noteq> [] \<and> take (length old) (c # cs) = old
      then remove_all old (drop (length old) (c # cs))
      else c # remove_all old cs)"
  by pat_completeness auto
termination
  by (relation "measure (\<lambda>(old, s). length s)") auto

definition rstrip :: "char \<Rightarrow> string \<Rightarrow> string" where
  "rstrip c s = rev (dropWhile (\<lambda>x. x = c) (rev s))"

definition normalize_domain :: "string \<Rightarrow> string" where
  "normalize_domain domain = rstrip CHR ''/'' (remove_all ''http://'' (remove_all ''https://'' domain))"

function chunks :: "nat \<Rightarrow> 'a list \<Rightarrow> 'a list list" where
  "chunks k xs = (if k = 0 \<or> xs = [] then [] else take k xs # chunks k (drop k xs))"
  by pat_completeness auto
termination
  by (relation "measure (\<lambda>(k, xs). length xs)") auto

declare chunks.simps [simp del]

text \<open>
  \<open>[xs[i:i + batch_size] for i in range(0, len(xs), batch_size)]\<close>: \<open>range\<close> raises
  \<open>ValueError\<close> for a step of 0 and is empty for a negative step.
\<close>

definition category_batches :: "int \<Rightarrow> 'a list \<Rightarrow> 'a list list option" where
  "category_batches k xs =
     (if k = 0 then None else if k < 0 then Some [] else Some (chunks (nat k) xs))"

text \<open>The coroutines that \<open>process_batch\<close> collects in \<open>tasks\<close>.\<close>

definition process_batch :: "state \<Rightarrow> string \<Rightarrow> string list \<Rightarrow> coroutine list" where
  "process_batch s domain urls =
     map (\<lambda>url. (From_batch, url, 0))
       (filter (\<lambda>url. url \<notin> set (visited_categories s domain)) urls)"

text \<open>
  A \<open>crawl_domain\<close> coroutine between two of its waits: created; inside \<open>fetch_url\<close> for
  the root page; waiting for the markup parser; in the \<open>gather\<close> of one batch, the later
  batches still to come; returned; ended by \<open>ValueError\<close>. The domain is the normalised
  one.
\<close>

datatype dtask =
    DStart string
  | DFetch string nat
  | DParse string string
  | DBatch string "task list" "string list list"
  | DDone
  | DRaised

text \<open>
  \<open>for batch in category_batches: await self.process_batch(domain, batch)\<close>, up to the
  next batch that has a task to wait for.
\<close>

fun crawl_batches :: "string \<Rightarrow> string list list \<Rightarrow> state \<Rightarrow> dtask" where
  "crawl_batches domain [] s = DDone"
| "crawl_batches domain (batch # batches) s =
     (case process_batch s domain batch of
        [] \<Rightarrow> crawl_batches domain batches s
      | c # cs \<Rightarrow> DBatch domain (map create_task (c # cs)) batches)"

definition crawl_domain_enter :: "string \<Rightarrow> state \<Rightarrow> dtask" where
  "crawl_domain_enter domain0 s =
     (let domain = normalize_domain domain0;
          base_url = ''https://'' @ domain
      in if base_url \<in> set (visited_urls s domain) then DDone else DFetch domain 0)"

definition crawl_domain_fetched :: "string \<Rightarrow> string option \<Rightarrow> dtask" where
  "crawl_domain_fetched domain content =
     (case content of None \<Rightarrow> DDone | Some body \<Rightarrow> if body = [] then DDone else DParse domain body)"

definition crawl_domain_parsed :: "config \<Rightarrow> world \<Rightarrow> string \<Rightarrow> string \<Rightarrow> state \<Rightarrow> dtask" where
  "crawl_domain_parsed cfg w domain body s =
     (let base_url = ''https://'' @ domain;
          category_urls =
            foldl set_add []
              (filter (is_category_url cfg) (map (urljoin w base_url) (find_all_a w body)))
      in case category_batches (batch_size cfg) category_urls of
           None \<Rightarrow> DRaised
         | Some batches \<Rightarrow> crawl_batches domain batches s)"

fun crawl_domain :: "config \<Rightarrow> world \<Rightarrow> state \<Rightarrow> dtask \<Rightarrow> (state \<times> dtask) list" where
  "crawl_domain cfg w s (DStart domain0) = [(s, crawl_domain_enter domain0 s)]"
| "crawl_domain cfg w s (DFetch domain retry_count) =
     (if free_slots s = 0 then []
      else [(fst (attempt cfg w (''https://'' @ domain) retry_count s),
             case snd (attempt cfg w (''https://'' @ domain) retry_count s) of
               None \<Rightarrow> DFetch domain (retry_count + 1)
             | Some content \<Rightarrow> crawl_domain_fetched domain content)])"
| "crawl_domain cfg w s (DParse domain body) = [(s, crawl_domain_parsed cfg w domain body s)]"
| "crawl_domain cfg w s (DBatch domain cs batches) =
     (if list_all is_done cs then [(s, crawl_batches domain batches s)]
      else map (\<lambda>(s', cs'). (s', DBatch domain cs' batches)) (gather cfg w domain s cs))"
| "crawl_domain cfg w s DDone = []"
| "crawl_domain cfg w s DRaised = []"

text \<open>
  A configuration of a run of \<open>crawl_domains\<close>: the state and the \<open>crawl_domain\<close>
  coroutines of its \<open>gather\<close>. \<open>nexts\<close> lists the configurations that one step of one
  coroutine leads to; none is left when every coroutine has ended or waits for a semaphore
  slot.
\<close>

type_synonym conf = "state \<times> dtask list"

text \<open>The \<open>gather\<close> of \<open>crawl_domains\<close>.\<close>

fun crawl_domains :: "config \<Rightarrow> world \<Rightarrow> state \<Rightarrow> dtask list \<Rightarrow> (state \<times> dtask list) list" where
  "crawl_domains cfg w s [] = []"
| "crawl_domains cfg w s (t # ts) =
     map (\<lambda>(s', t'). (s', t' # ts)) (crawl_domain cfg w s t)
     @ map (\<lambda>(s', ts'). (s', t # ts')) (crawl_domains cfg w s ts)"

definition nexts :: "config \<Rightarrow> world \<Rightarrow> conf \<Rightarrow> conf list" where
  "nexts cfg w c = crawl_domains cfg w (fst c) (snd c)"

text \<open>A new fetcher on which \<open>crawl_domains(domains)\<close> has just been called.\<close>

definition initial :: "config \<Rightarrow> string list \<Rightarrow> conf" where
  "initial cfg domains = (init_state cfg, map DStart domains)"

text \<open>\<open>reaches cfg w c c'\<close>: some run leads from \<open>c\<close> to \<open>c'\<close>.\<close>

inductive reaches :: "config \<Rightarrow> world \<Rightarrow> conf \<Rightarrow> conf \<Rightarrow> bool" for cfg w where
  here: "reaches cfg w c c"
| step: "c' \<in> set (nexts cfg w c) \<Longrightarrow> reaches cfg w c' c'' \<Longrightarrow> reaches cfg w c c''"

fun ended :: "dtask \<Rightarrow> bool" where
  "ended DDone = True"
| "ended DRaised = True"
| "ended t = False"

text \<open>
  How a run of at most \<open>n\<close> steps ends: \<open>Finished\<close> when every coroutine has ended,
  \<open>Stuck\<close> when no step is left while some coroutine waits for a semaphore slot, and
  \<open>Unfinished\<close> when \<open>n\<close> steps did not end it. \<open>outcomes cfg w n c\<close> lists the ends of
  all runs from \<open>c\<close>, one for each order in which the coroutines can take their steps.
\<close>

datatype 'a result = Finished 'a | Stuck 'a | Unfinished 'a

fun outcomes :: "config \<Rightarrow> world \<Rightarrow> nat \<Rightarrow> conf \<Rightarrow> state result list" where
  "outcomes cfg w 0 c = [Unfinished (fst c)]"
| "outcomes cfg w (Suc n) c =
     (case nexts cfg w c of
        [] \<Rightarrow> [if list_all ended (snd c) then Finished (fst c) else Stuck (fst c)]
      | c' # cs \<Rightarrow> concat (map (outcomes cfg w n) (c' # cs)))"

section \<open>Test sites\<close>

text \<open>
  A page body is a string and the links of a page are given by a table. \<open>site_urljoin\<close>
  agrees with \<open>urllib.parse.urljoin\<close> where the base is an \<open>http(s)\<close> URL and the
  reference is an absolute \<open>http(s)\<close> URL or an absolute path; the sites below use no
  other kind of reference.
\<close>

definition origin :: "string \<Rightarrow> string" where
  "origin base =
     (if take 8 base = ''https://'' then ''https://'' @ takeWhile (\<lambda>c. c \<noteq> CHR ''/'') (drop 8 base)
      else ''http://'' @ takeWhile (\<lambda>c. c \<noteq> CHR ''/'') (drop 7 base))"

definition site_urljoin :: "string \<Rightarrow> string \<Rightarrow> string" where
  "site_urljoin base href =
     (if take 8 href = ''https://'' \<or> take 7 href = ''http://'' then href
      else if take 1 href = ''/'' then origin base @ href
      else base)"

text \<open>
  A site is a table from URL to the \<open>href\<close>s of its page; a URL not in the table gives
  404, and a URL with the entry \<open>None\<close> gives 429 to every request.
\<close>

definition site_world :: "(string \<times> string list option) list \<Rightarrow> world" where
  "site_world pages =
     \<lparr> server = (\<lambda>n url. case map_of pages url of
                            None \<Rightarrow> Status 404 ''not found''
                          | Some None \<Rightarrow> Status 429 ''slow down''
                          | Some (Some hrefs) \<Rightarrow> Status 200 (''page '' @ url)),
       find_all_a = (\<lambda>body. case map_of pages (drop 5 body) of
                                Some (Some hrefs) \<Rightarrow> hrefs
                              | _ \<Rightarrow> []),
       urljoin = site_urljoin \<rparr>"

text \<open>A server that answers every request with status 429.\<close>

definition rate_limited :: world where
  "rate_limited = \<lparr> server = (\<lambda>n url. Status 429 ''slow down''),
                     find_all_a = (\<lambda>body. []), urljoin = site_urljoin \<rparr>"

text \<open>\<open>CrawlerConfig(max_concurrent_requests=2)\<close> and \<open>CrawlerConfig(max_concurrent_requests=1)\<close>.\<close>

definition two_slots :: config where
  "two_slots = CrawlerConfig 50 2 50 (1 / 2) 2 None None None"

definition one_slot :: config where
  "one_slot = CrawlerConfig 50 1 50 (1 / 2) 2 None None None"

text \<open>The site of the end-to-end scenario.\<close>

definition shop_test :: world where
  "shop_test = site_world
     [(''https://shop.test'', Some [''/c/shoes'']),
      (''https://shop.test/c/shoes'', Some [''/p/42'', ''/c/shoes?page=2'']),
      (''https://shop.test/c/shoes?page=2'', Some []),
      (''https://shop.test/p/42'', Some [])]"

text \<open>The site for the page budget: one category whose second listing page has three subcategories.\<close>

definition budget_site :: world where
  "budget_site = site_world
     [(''https://shop.test'', Some [''/c/a'']),
      (''https://shop.test/c/a'', Some [''/c/a?page=2'']),
      (''https://shop.test/c/a?page=2'', Some [''/c/x'', ''/c/y'', ''/c/z'']),
      (''https://shop.test/c/x'', Some []),
      (''https://shop.test/c/y'', Some []),
      (''https://shop.test/c/z'', Some [])]"

text \<open>\<open>CrawlerConfig(max_pages_per_domain=1)\<close>.\<close>

definition budget_one :: config where
  "budget_one = CrawlerConfig 1 10 50 (1 / 2) 2 None None None"

text \<open>A start page below the host's root that links to itself.\<close>

definition self_link_site :: world where
  "self_link_site = site_world [(''https://shop.test/sale'', Some [''https://shop.test/sale''])]"

text \<open>
  A chain of categories, one below the other; the page at depth 3 links to one more
  category and to its own second listing page.
\<close>

definition chain_site :: world where
  "chain_site = site_world
     [(''https://shop.test'', Some [''/c/1'']),
      (''https://shop.test/c/1'', Some [''/c/2'']),
      (''https://shop.test/c/2'', Some [''/c/3'']),
      (''https://shop.test/c/3'', Some [''/c/4'']),
      (''https://shop.test/c/4'', Some [''/c/5'', ''/c/4?page=2'']),
      (''https://shop.test/c/4?page=2'', Some []),
      (''https://shop.test/c/5'', Some [])]"

text \<open>
  A category page with a rate-limited subcategory and a product link that is also a
  pagination link.
\<close>

definition limited_site :: world where
  "limited_site = site_world
     [(''https://shop.test'', Some [''/c/a'']),
      (''https://shop.test/c/a'', Some [''/c/x'', ''/p/1'']),
      (''https://shop.test/c/x'', None),
      (''https://shop.test/p/1'', Some [])]"

section \<open>Notions used in the statements\<close>

fun is_crawl :: "event \<Rightarrow> bool" where
  "is_crawl (Crawl st u d) = True"
| "is_crawl e = False"

text \<open>
  \<open>grows domain s s'\<close>: \<open>s'\<close> comes after \<open>s\<close> in a crawl of \<open>domain\<close>. The sets only
  gain members, those of other domains and \<open>visited_urls\<close> stay as they are, and the
  trace is extended.
\<close>

definition grows :: "string \<Rightarrow> state \<Rightarrow> state \<Rightarrow> bool" where
  "grows domain s s' \<longleftrightarrow>
     visited_urls s' = visited_urls s
   \<and> (\<forall>d. set (visited_categories s d) \<subseteq> set (visited_categories s' d))
   \<and> (\<forall>d. set (product_urls s d) \<subseteq> set (product_urls s' d))
   \<and> (\<forall>d. d \<noteq> domain \<longrightarrow> visited_categories s' d = visited_categories s d
                          \<and> product_urls s' d = product_urls s d)
   \<and> (\<exists>ext. trace s' = trace s @ ext)"

text \<open>Every coroutine started from the subcategory loop so far ran at a depth within \<open>max_depth\<close>.\<close>

definition depth_ok :: "config \<Rightarrow> event list \<Rightarrow> bool" where
  "depth_ok cfg tr \<longleftrightarrow> (\<forall>u d. Crawl From_subcategories u d \<in> set tr \<longrightarrow> 1 \<le> d \<and> int d \<le> max_depth cfg)"

text \<open>
  \<open>child_at site d c\<close>: the coroutine \<open>c\<close> has the depth \<open>d\<close> and, as long as it has not
  run, was created at \<open>site\<close>; or it has returned.
\<close>

fun child_at :: "site \<Rightarrow> nat \<Rightarrow> task \<Rightarrow> bool" where
  "child_at site d (Start site' u d') = (site' = site \<and> d' = d)"
| "child_at site d (Fetch u d' k) = (d' = d)"
| "child_at site d (Parse u d' body) = (d' = d)"
| "child_at site d (Subs d' pls cs) = (d' = d)"
| "child_at site d (Pags d' cs) = (d' = d)"
| "child_at site d Done = True"

text \<open>
  The depths in a tree of coroutines. A coroutine that is past its entry check has a depth
  of at most \<open>max_depth\<close>. One that waits for its subcategory coroutines has a depth below
  \<open>max_depth\<close>, and they have its depth plus one; one that waits for its pagination
  coroutines has them at its own depth.
\<close>

fun depths :: "config \<Rightarrow> task \<Rightarrow> bool" where
  "depths cfg (Start site u d) = (site = From_subcategories \<longrightarrow> 1 \<le> d \<and> int d \<le> max_depth cfg)"
| "depths cfg (Fetch u d k) = (int d \<le> max_depth cfg)"
| "depths cfg (Parse u d body) = (int d \<le> max_depth cfg)"
| "depths cfg (Subs d pls cs) =
     (int d < max_depth cfg \<and> list_all (child_at From_subcategories (d + 1)) cs
      \<and> list_all (depths cfg) cs)"
| "depths cfg (Pags d cs) =
     (int d \<le> max_depth cfg \<and> list_all (child_at From_pagination d) cs \<and> list_all (depths cfg) cs)"
| "depths cfg Done = True"

fun domain_depths :: "config \<Rightarrow> dtask \<Rightarrow> bool" where
  "domain_depths cfg (DBatch domain cs batches) =
     (list_all (child_at From_batch 0) cs \<and> list_all (depths cfg) cs)"
| "domain_depths cfg t = True"

text \<open>
  The URLs requested so far, in order; the \<open>i\<close>-th request is answered by
  \<open>server w i\<close>. \<open>bodies w tr\<close> are the bodies that came with status 200.
  \<open>served w tr body\<close>: \<open>body\<close> is one of them. \<open>linked w domain tr v\<close>: \<open>v\<close> is a
  link of one of them, resolved against the base URL of the domain.
\<close>

definition requests :: "event list \<Rightarrow> string list" where
  "requests tr = concat (map (\<lambda>e. case e of Get u \<Rightarrow> [u] | _ \<Rightarrow> []) tr)"

definition bodies :: "world \<Rightarrow> event list \<Rightarrow> string list" where
  "bodies w tr =
     concat (map (\<lambda>i. case server w i (requests tr ! i) of
                         Status code body \<Rightarrow> if code = 200 then [body] else []
                       | Transport_error \<Rightarrow> [])
                 [0..<length (requests tr)])"

definition served :: "world \<Rightarrow> event list \<Rightarrow> string \<Rightarrow> bool" where
  "served w tr body \<longleftrightarrow> body \<in> set (bodies w tr)"

definition linked :: "world \<Rightarrow> string \<Rightarrow> event list \<Rightarrow> string \<Rightarrow> bool" where
  "linked w domain tr v \<longleftrightarrow> list_ex (\<lambda>body. v \<in> set (page_links w domain body)) (bodies w tr)"

text \<open>
  \<open>found cfg w domain tr v\<close>: \<open>v\<close> is a category or pagination link of a page that was
  fetched.
\<close>

definition found :: "config \<Rightarrow> world \<Rightarrow> string \<Rightarrow> event list \<Rightarrow> string \<Rightarrow> bool" where
  "found cfg w domain tr v \<longleftrightarrow>
     linked w domain tr v \<and> (is_category_url cfg v \<or> is_pagination_url cfg v)"

text \<open>
  Where the URLs and bodies held by the coroutines come from: a URL to crawl was found on
  a fetched page, and a body is one that was served.
\<close>

fun sourced :: "config \<Rightarrow> world \<Rightarrow> string \<Rightarrow> event list \<Rightarrow> task \<Rightarrow> bool" where
  "sourced cfg w domain tr (Start site u d) = found cfg w domain tr u"
| "sourced cfg w domain tr (Fetch u d k) = True"
| "sourced cfg w domain tr (Parse u d body) = served w tr body"
| "sourced cfg w domain tr (Subs d pls cs) =
     (list_all (found cfg w domain tr) pls \<and> list_all (sourced cfg w domain tr) cs)"
| "sourced cfg w domain tr (Pags d cs) = list_all (sourced cfg w domain tr) cs"
| "sourced cfg w domain tr Done = True"

fun domain_sourced :: "config \<Rightarrow> world \<Rightarrow> event list \<Rightarrow> dtask \<Rightarrow> bool" where
  "domain_sourced cfg w tr (DParse domain body) = served w tr body"
| "domain_sourced cfg w tr (DBatch domain cs batches) =
     (list_all (sourced cfg w domain tr) cs
      \<and> list_all (list_all (found cfg w domain tr)) batches)"
| "domain_sourced cfg w tr t = True"

text \<open>Every visited URL is a category or pagination link of a fetched page.\<close>

definition visited_found :: "config \<Rightarrow> world \<Rightarrow> state \<Rightarrow> bool" where
  "visited_found cfg w s \<longleftrightarrow>
     (\<forall>d. list_all (found cfg w d (trace s)) (visited_categories s d))"

text \<open>The state in which a run was left.\<close>

fun state_of :: "'a result \<Rightarrow> 'a" where
  "state_of (Finished s) = s"
| "state_of (Stuck s) = s"
| "state_of (Unfinished s) = s"

fun is_unfinished :: "'a result \<Rightarrow> bool" where
  "is_unfinished (Unfinished s) = True"
| "is_unfinished r = False"

text \<open>How a configuration with no step left counts as the end of a run.\<close>

definition stopped :: "conf \<Rightarrow> state result" where
  "stopped c = (if list_all ended (snd c) then Finished (fst c) else Stuck (fst c))"

text \<open>
  What a run has made of a domain: the visited URLs in the order in which they were
  marked and the coroutines in the order in which they started, for a run in which every
  coroutine returned.
\<close>

definition outline :: "string \<Rightarrow> state result \<Rightarrow> (string list \<times> event list) option" where
  "outline domain r =
     (case r of Finished s \<Rightarrow> Some (visited_categories s domain, filter is_crawl (trace s))
      | _ \<Rightarrow> None)"

section \<open>Properties of the URL classifier\<close>

lemma lower_idem: "lower (lower c) = lower c"
  by (auto simp: lower_def Let_def)

lemma is_digit_lower: "is_digit (lower c) = is_digit c"
  by (auto simp: lower_def is_digit_def Let_def)

lemma lower_newline: "lower c = CHR 0x0A \<longleftrightarrow> c = CHR 0x0A"
proof
  assume h: "lower c = CHR 0x0A"
  show "c = CHR 0x0A"
  proof (cases "65 \<le> (of_char c :: nat) \<and> (of_char c :: nat) \<le> 90")
    case True
    then have "lower c = char_of (of_char c + 32 :: nat)" by (simp add: lower_def)
    then have "(of_char (lower c) :: nat) = of_char c + 32" using True by simp
    then show ?thesis using h by simp
  next
    case False
    then show ?thesis using h by (auto simp: lower_def Let_def)
  qed
next
  assume "c = CHR 0x0A" then show "lower c = CHR 0x0A" by (simp add: lower_def)
qed

lemma atom_ok_lower: "atom_ok a (lower x) = atom_ok a x"
  by (cases a) (simp_all add: lower_idem is_digit_lower)

lemma map_lower_newline: "map lower s = [CHR 0x0A] \<longleftrightarrow> s = [CHR 0x0A]"
  by (cases s) (auto simp: lower_newline)

lemma match_here_lower: "match_here r (map lower s) = match_here r s"
  by (induction r s rule: match_here.induct) (simp_all add: atom_ok_lower map_lower_newline del: map_eq_Cons_conv)

lemma re_search_lower: "re_search r (map lower s) = re_search r s"
  using match_here_lower[of r] by (induction s) (simp_all add: match_here_lower[of r "_ # _", simplified])

lemma re_search_iff: "re_search r s \<longleftrightarrow> (\<exists>pre suf. s = pre @ suf \<and> match_here r suf)"
proof (induction s)
  case Nil
  then show ?case by simp
next
  case (Cons c cs)
  show ?case
  proof
    assume "re_search r (c # cs)"
    then consider "match_here r (c # cs)" | "re_search r cs" by auto
    then show "\<exists>pre suf. c # cs = pre @ suf \<and> match_here r suf"
    proof cases
      case 1
      then show ?thesis by (intro exI[of _ "[]"] exI[of _ "c # cs"]) simp
    next
      case 2
      then obtain pre suf where "cs = pre @ suf" "match_here r suf" using Cons.IH by blast
      then show ?thesis by (intro exI[of _ "c # pre"] exI[of _ suf]) simp
    qed
  next
    assume "\<exists>pre suf. c # cs = pre @ suf \<and> match_here r suf"
    then obtain pre suf where h: "c # cs = pre @ suf" "match_here r suf" by blast
    show "re_search r (c # cs)"
    proof (cases pre)
      case Nil
      then have "match_here r (c # cs)" using h by simp
      then show ?thesis by simp
    next
      case (Cons p ps)
      then have "cs = ps @ suf" using h by simp
      then have "re_search r cs" using h Cons.IH by blast
      then show ?thesis by simp
    qed
  qed
qed


lemma default_product_patterns_eq:
  "default_product_patterns =
     [lits ''/product'' @ [Atom (OneOf ''s'') ZeroOrOne, Atom (Lit CHR ''/'') Once],
      lits ''/item/'',
      lits ''/p/'',
      lits ''/dp/'',
      lits ''-p-'' @ [Atom Digit OneOrMore],
      [Atom (Lit CHR ''/'') Once, Atom (NoneOf ''/'') OneOrMore,
       Atom (Lit CHR ''/'') Once, Atom (NoneOf ''/'') OneOrMore,
       Atom (Lit CHR ''/'') Once, Atom (NoneOf ''/'') OneOrMore,
       Atom (Lit CHR ''-'') Once, Atom Digit OneOrMore] @ lits ''/buy'' @ [Eol],
      [Atom (Lit CHR ''/'') Once, Atom Digit OneOrMore] @ lits ''/buy'' @ [Eol]]"
  by code_simp

lemma default_category_patterns_eq:
  "default_category_patterns =
     [lits ''/category/'',
      lits ''/c/'',
      lits ''/collection'' @ [Atom (Lit CHR ''s'') ZeroOrOne, Atom (Lit CHR ''/'') Once],
      lits ''/shop/'',
      [Atom (Lit CHR ''/'') Once, Atom (NoneOf ''/'') OneOrMore,
       Atom (Lit CHR ''/'') Once, Atom (NoneOf ''/'') OneOrMore, Eol]]"
  by code_simp

lemma default_pagination_patterns_eq:
  "default_pagination_patterns =
     [lits ''page='' @ [Atom Digit OneOrMore],
      lits ''p='' @ [Atom Digit OneOrMore],
      lits ''/page/'' @ [Atom Digit OneOrMore],
      lits ''/p/'' @ [Atom Digit OneOrMore],
      lits ''offset='' @ [Atom Digit OneOrMore],
      Atom (OneOf ''?&'') Once # lits ''page='' @ [Atom Digit OneOrMore]]"
  by code_simp

lemma match_here_lits: "match_here (lits lit @ r) (lit @ t) = match_here r t"
  by (induction lit) (simp_all add: lits_def)

lemma list_ex_search_iff:
  "list_ex (\<lambda>pattern. re_search pattern url) ps
     \<longleftrightarrow> (\<exists>p\<in>set ps. \<exists>pre suf. url = pre @ suf \<and> match_here p suf)"
  by (simp add: list_ex_iff re_search_iff)

lemma list_ex_search_lower:
  "list_ex (\<lambda>pattern. re_search pattern (map lower url)) ps
     = list_ex (\<lambda>pattern. re_search pattern url) ps"
  by (simp add: re_search_lower)

lemma classify_examples:
  "is_product_url default_config ''https://shop.example.com/p/123''"
  "is_category_url default_config ''https://shop.example.com/collections/shoes''"
  "is_category_url default_config ''https://shop.example.com/collections/shoes?page=2''"
  "is_pagination_url default_config ''https://shop.example.com/collections/shoes?page=2''"
  "is_product_url default_config ''HTTPS://SHOP.EXAMPLE.COM/P/123''"
  by code_simp+

text \<open>
  Claim C8. Each of \<open>is_product_url\<close>, \<open>is_category_url\<close> and \<open>is_pagination_url\<close> is
  true exactly when some pattern of its list matches somewhere in the whole URL string,
  and letter case plays no part: the URL and its lower-case form classify alike. With the
  default patterns, \<open>https://shop.example.com/p/123\<close> is a product URL,
  \<open>https://shop.example.com/collections/shoes\<close> a category URL, and
  \<open>https://shop.example.com/collections/shoes?page=2\<close> both a category and a
  pagination URL.
\<close>

theorem classifier_matches_patterns:
  "(is_product_url cfg url
      \<longleftrightarrow> (\<exists>p\<in>set (product_patterns cfg). \<exists>pre suf. url = pre @ suf \<and> match_here p suf))
   \<and> (is_category_url cfg url
      \<longleftrightarrow> (\<exists>p\<in>set (category_patterns cfg). \<exists>pre suf. url = pre @ suf \<and> match_here p suf))
   \<and> (is_pagination_url cfg url
      \<longleftrightarrow> (\<exists>p\<in>set (pagination_patterns cfg). \<exists>pre suf. url = pre @ suf \<and> match_here p suf))
   \<and> is_product_url cfg (map lower url) = is_product_url cfg url
   \<and> is_category_url cfg (map lower url) = is_category_url cfg url
   \<and> is_pagination_url cfg (map lower url) = is_pagination_url cfg url
   \<and> is_product_url default_config ''https://shop.example.com/p/123''
   \<and> is_product_url default_config ''HTTPS://SHOP.EXAMPLE.COM/P/123''
   \<and> is_category_url default_config ''https://shop.example.com/collections/shoes''
   \<and> is_category_url default_config ''https://shop.example.com/collections/shoes?page=2''
   \<and> is_pagination_url default_config ''https://shop.example.com/collections/shoes?page=2''"
proof -
  have "is_product_url cfg url
      \<longleftrightarrow> (\<exists>p\<in>set (product_patterns cfg). \<exists>pre suf. url = pre @ suf \<and> match_here p suf)"
    by (simp only: is_product_url_def list_ex_search_iff)
  moreover have "is_category_url cfg url
      \<longleftrightarrow> (\<exists>p\<in>set (category_patterns cfg). \<exists>pre suf. url = pre @ suf \<and> match_here p suf)"
    by (simp only: is_category_url_def list_ex_search_iff)
  moreover have "is_pagination_url cfg url
      \<longleftrightarrow> (\<exists>p\<in>set (pagination_patterns cfg). \<exists>pre suf. url = pre @ suf \<and> match_here p suf)"
    by (simp only: is_pagination_url_def list_ex_search_iff)
  moreover have "is_product_url cfg (map lower url) = is_product_url cfg url"
    by (simp only: is_product_url_def list_ex_search_lower)
  moreover have "is_category_url cfg (map lower url) = is_category_url cfg url"
    by (simp only: is_category_url_def list_ex_search_lower)
  moreover have "is_pagination_url cfg (map lower url) = is_pagination_url cfg url"
    by (simp only: is_pagination_url_def list_ex_search_lower)
  ultimately show ?thesis using classify_examples by blast
qed

theorem classifier_matches_patterns_witness:
  "\<exists>p\<in>set (product_patterns default_config).
     \<exists>pre suf. ''https://shop.example.com/p/123'' = pre @ suf \<and> match_here p suf"
  using classifier_matches_patterns [of default_config "''https://shop.example.com/p/123''"]
  by blast

section \<open>Properties of the fetch client\<close>

lemma n_requests_simps [simp]:
  "n_requests [] = 0"
  "n_requests (tr @ tr') = n_requests tr + n_requests tr'"
  "n_requests (Get u # tr) = Suc (n_requests tr)"
  "n_requests (Delay d # tr) = n_requests tr"
  "n_requests (Backoff k # tr) = n_requests tr"
  "n_requests (Crawl st u k # tr) = n_requests tr"
  "n_requests (delay_events cfg) = 0"
  by (simp_all add: n_requests_def delay_events_def)

lemma attempt_again:
  "retryable (server w (n_requests (trace s)) url) \<Longrightarrow> int k < max_retries cfg
   \<Longrightarrow> attempt cfg w url k s
       = (s\<lparr>free_slots := free_slots s - 1,
            trace := trace s @ delay_events cfg @ [Get url] @ [Backoff (2 ^ k)]\<rparr>, None)"
  by (cases "server w (n_requests (trace s)) url") (simp_all add: attempt_def Let_def)

lemma attempt_last:
  "retryable (server w (n_requests (trace s)) url) \<Longrightarrow> \<not> int k < max_retries cfg
   \<Longrightarrow> attempt cfg w url k s
       = (s\<lparr>free_slots := free_slots s - 1 + (k + 1),
            trace := trace s @ delay_events cfg @ [Get url]\<rparr>, Some None)"
  by (cases "server w (n_requests (trace s)) url") (simp_all add: attempt_def Let_def)

lemma attempt_other_status:
  "server w (n_requests (trace s)) url = Status code body \<Longrightarrow> code \<noteq> 200 \<Longrightarrow> code \<noteq> 429
   \<Longrightarrow> attempt cfg w url k s
       = (s\<lparr>free_slots := free_slots s - 1 + (k + 1),
            trace := trace s @ delay_events cfg @ [Get url]\<rparr>, Some None)"
  by (simp add: attempt_def Let_def)

lemma attempt_ok:
  "server w (n_requests (trace s)) url = Status 200 body
   \<Longrightarrow> attempt cfg w url k s
       = (s\<lparr>free_slots := free_slots s - 1 + (k + 1),
            trace := trace s @ delay_events cfg @ [Get url]\<rparr>, Some (Some body))"
  by (simp add: attempt_def Let_def)

text \<open>
  An attempt changes the semaphore and the trace only; it appends one request for the URL,
  and either goes on to the next attempt, keeping its slot, or returns and gives back the
  slots of all attempts.
\<close>

lemma attempt_cases:
  "(int k < max_retries cfg
      \<and> attempt cfg w url k s
          = (s\<lparr>free_slots := free_slots s - 1,
               trace := trace s @ delay_events cfg @ [Get url] @ [Backoff (2 ^ k)]\<rparr>, None))
   \<or> (\<exists>content. attempt cfg w url k s
          = (s\<lparr>free_slots := free_slots s - 1 + (k + 1),
               trace := trace s @ delay_events cfg @ [Get url]\<rparr>, Some content))"
  by (cases "server w (n_requests (trace s)) url") (auto simp: attempt_def Let_def)

lemma fetch_from_blocked: "free_slots s = 0 \<Longrightarrow> fetch_from cfg w url k s = (s, Blocked)"
  by (subst fetch_from.simps) simp

lemma fetch_from_other_status:
  "0 < free_slots s \<Longrightarrow> server w (n_requests (trace s)) url = Status code body
   \<Longrightarrow> code \<noteq> 200 \<Longrightarrow> code \<noteq> 429
   \<Longrightarrow> fetch_from cfg w url k s
       = (s\<lparr>free_slots := free_slots s + k,
            trace := trace s @ delay_events cfg @ [Get url]\<rparr>, Returned None)"
  by (subst fetch_from.simps) (simp add: attempt_other_status)

lemma fetch_from_ok:
  "0 < free_slots s \<Longrightarrow> server w (n_requests (trace s)) url = Status 200 body
   \<Longrightarrow> fetch_from cfg w url k s
       = (s\<lparr>free_slots := free_slots s + k,
            trace := trace s @ delay_events cfg @ [Get url]\<rparr>, Returned (Some body))"
  by (subst fetch_from.simps) (simp add: attempt_ok)

lemma fetch_from_exhaust:
  "max_retries cfg = int m \<Longrightarrow> k \<le> m \<Longrightarrow> m - k < free_slots s
   \<Longrightarrow> (\<forall>i\<le>m - k. retryable (server w (n_requests (trace s) + i) url))
   \<Longrightarrow> fetch_from cfg w url k s
       = (s\<lparr>free_slots := free_slots s + k,
            trace := trace s @ concat (map (attempt_events cfg url m) [k..<Suc m])\<rparr>, Returned None)"
proof (induction "m - k" arbitrary: k s)
  case 0
  then have km: "k = m" by simp
  from "0.prems"(4) have r: "retryable (server w (n_requests (trace s)) url)"
    by (metis add.right_neutral le0)
  have "fetch_from cfg w url m s
          = (s\<lparr>free_slots := free_slots s + m,
               trace := trace s @ delay_events cfg @ [Get url]\<rparr>, Returned None)"
    using r "0.prems"(1,3) by (subst fetch_from.simps) (simp add: attempt_last)
  then show ?case using km by (simp add: attempt_events_def)
next
  case (Suc d)
  then have lt: "k < m" by simp
  from Suc.prems(4) have r: "retryable (server w (n_requests (trace s)) url)"
    by (metis add.right_neutral le0)
  let ?s' = "s\<lparr>free_slots := free_slots s - 1,
               trace := trace s @ delay_events cfg @ [Get url] @ [Backoff (2 ^ k)]\<rparr>"
  have step: "fetch_from cfg w url k s = fetch_from cfg w url (Suc k) ?s'"
    using r lt Suc.prems(1,3) by (subst fetch_from.simps) (simp add: attempt_again)
  have d: "d = m - Suc k" using Suc.hyps(2) by simp
  have slots: "m - Suc k < free_slots ?s'" using Suc.prems(3) lt by simp
  have all: "\<forall>i\<le>m - Suc k. retryable (server w (n_requests (trace ?s') + i) url)"
  proof (intro allI impI)
    fix i assume "i \<le> m - Suc k"
    then have "Suc i \<le> m - k" using lt by simp
    then have "retryable (server w (n_requests (trace s) + Suc i) url)" using Suc.prems(4) by blast
    then show "retryable (server w (n_requests (trace ?s') + i) url)" by simp
  qed
  have "fetch_from cfg w url (Suc k) ?s'
          = (?s'\<lparr>free_slots := free_slots ?s' + Suc k,
                 trace := trace ?s' @ concat (map (attempt_events cfg url m) [Suc k..<Suc m])\<rparr>,
             Returned None)"
    using Suc.hyps(1)[OF d Suc.prems(1) _ slots all] lt by simp
  moreover have "[k..<Suc m] = k # [Suc k..<Suc m]" using lt by (simp add: upt_conv_Cons)
  moreover have "free_slots s - 1 + Suc k = free_slots s + k" using Suc.prems(3) by simp
  ultimately show ?case using step lt by (simp add: attempt_events_def)
qed

text \<open>
  With a free slot for each of the attempts that may follow, \<open>fetch_url\<close> returns: after
  at least one request and at most \<open>max_retries - retry_count + 1\<close> of them, with every
  slot given back and nothing but the trace changed.
\<close>

lemma fetch_from_returns:
  "nat (max_retries cfg - int k) < free_slots s
   \<Longrightarrow> \<exists>ext content. fetch_from cfg w url k s
            = (s\<lparr>free_slots := free_slots s + k, trace := trace s @ ext\<rparr>, Returned content)
          \<and> 1 \<le> n_requests ext
          \<and> int (n_requests ext) \<le> max 0 (max_retries cfg - int k) + 1"
proof (induction "nat (max_retries cfg - int k)" arbitrary: k s rule: less_induct)
  case less
  then have free: "0 < free_slots s" by simp
  let ?s' = "s\<lparr>free_slots := free_slots s - 1,
               trace := trace s @ delay_events cfg @ [Get url] @ [Backoff (2 ^ k)]\<rparr>"
  from attempt_cases[of k cfg w url s] show ?case
  proof
    assume "\<exists>content. attempt cfg w url k s
          = (s\<lparr>free_slots := free_slots s - 1 + (k + 1),
               trace := trace s @ delay_events cfg @ [Get url]\<rparr>, Some content)"
    then obtain content where a: "attempt cfg w url k s
          = (s\<lparr>free_slots := free_slots s - 1 + (k + 1),
               trace := trace s @ delay_events cfg @ [Get url]\<rparr>, Some content)" by blast
    have 1: "fetch_from cfg w url k s
          = (s\<lparr>free_slots := free_slots s + k,
               trace := trace s @ (delay_events cfg @ [Get url])\<rparr>, Returned content)"
      using free a by (subst fetch_from.simps) simp
    have 2: "1 \<le> n_requests (delay_events cfg @ [Get url])" by simp
    have 3: "int (n_requests (delay_events cfg @ [Get url])) \<le> max 0 (max_retries cfg - int k) + 1"
      by simp
    show ?thesis using 1 2 3 by blast
  next
    assume h: "int k < max_retries cfg
      \<and> attempt cfg w url k s = (?s', None)"
    then have step: "fetch_from cfg w url k s = fetch_from cfg w url (Suc k) ?s'"
      using free by (subst fetch_from.simps) simp
    have m: "nat (max_retries cfg - int (Suc k)) < nat (max_retries cfg - int k)" using h by simp
    have slots: "nat (max_retries cfg - int (Suc k)) < free_slots ?s'" using less.prems m by simp
    from less.hyps[OF m slots] obtain ext content where
      e: "fetch_from cfg w url (Suc k) ?s'
            = (?s'\<lparr>free_slots := free_slots ?s' + Suc k, trace := trace ?s' @ ext\<rparr>, Returned content)"
         "1 \<le> n_requests ext"
         "int (n_requests ext) \<le> max 0 (max_retries cfg - int (Suc k)) + 1" by blast
    let ?ext = "delay_events cfg @ [Get url] @ [Backoff (2 ^ k)] @ ext"
    have 1: "fetch_from cfg w url k s
               = (s\<lparr>free_slots := free_slots s + k, trace := trace s @ ?ext\<rparr>, Returned content)"
      using step e(1) free by simp
    have n: "n_requests ?ext = Suc (n_requests ext)" by simp
    have 2: "1 \<le> n_requests ?ext" using n by simp
    have 3: "int (n_requests ?ext) \<le> max 0 (max_retries cfg - int k) + 1"
      using n e(3) h by simp
    show ?thesis using 1 2 3 by blast
  qed
qed

text \<open>
  With three free slots a fetch that meets status 429 three times makes its three
  requests, sleeps 1 and 2 seconds in between and returns \<open>None\<close>.
\<close>

lemma fetch_url_429_with_three_slots:
  assumes "max_retries cfg = 2" and "3 \<le> free_slots s"
    and "\<forall>i<3. \<exists>body. server w (n_requests (trace s) + i) url = Status 429 body"
  shows "fetch_url cfg w url s =
           (s\<lparr>trace := trace s @ delay_events cfg @ [Get url, Backoff 1]
                 @ delay_events cfg @ [Get url, Backoff 2]
                 @ delay_events cfg @ [Get url]\<rparr>, Returned None)"
proof -
  have r: "\<forall>i\<le>2 - 0. retryable (server w (n_requests (trace s) + i) url)"
  proof (intro allI impI)
    fix i :: nat assume "i \<le> 2 - 0"
    then have "i < 3" by simp
    with assms(3) obtain body where "server w (n_requests (trace s) + i) url = Status 429 body"
      by blast
    then show "retryable (server w (n_requests (trace s) + i) url)" by simp
  qed
  have "[0..<Suc 2] = [0, 1, 2]" by (simp add: upt_rec)
  then show ?thesis
    using fetch_from_exhaust[of cfg 2 0 s w url, OF _ _ _ r] assms(1,2)
    by (simp add: fetch_url_def attempt_events_def)
qed

text \<open>
  Claim C7 with two slots. The server answers every request with status 429,
  \<open>max_retries\<close> is 2 and \<open>max_concurrent_requests\<close> is 2: \<open>fetch_url\<close> makes two requests,
  sleeps 1 and 2 seconds, and then waits for a third slot of the semaphore while it holds
  the other two itself. It makes no third request and never returns.
\<close>

theorem fetch_url_429_blocks_with_two_slots:
  "max_retries two_slots = 2
   \<and> max_concurrent_requests two_slots = 2
   \<and> server rate_limited 0 ''https://shop.test/c/shoes'' = Status 429 ''slow down''
   \<and> server rate_limited 1 ''https://shop.test/c/shoes'' = Status 429 ''slow down''
   \<and> server rate_limited 2 ''https://shop.test/c/shoes'' = Status 429 ''slow down''
   \<and> free_slots (init_state two_slots) = 2
   \<and> (case fetch_url two_slots rate_limited ''https://shop.test/c/shoes'' (init_state two_slots) of
        (s, r) \<Rightarrow>
          r = Blocked
          \<and> trace s = [Delay (1 / 2), Get ''https://shop.test/c/shoes'', Backoff 1,
                       Delay (1 / 2), Get ''https://shop.test/c/shoes'', Backoff 2]
          \<and> n_requests (trace s) = 2
          \<and> free_slots s = 0)"
  by code_simp

text \<open>
  Claim C2, as the source has it, for a call that finds a free slot of the semaphore for
  each of its attempts (an attempt is made while the slots of the attempts before it are
  held). A response with a status other than 200 and 429 ends the fetch at once: \<open>None\<close>
  is returned after that one request, with no back-off and no retry. Retries belong to
  status 429 and to exceptions only: when each of the \<open>max_retries + 1\<close> attempts fails in
  one of these two ways, attempt \<open>i\<close> is followed by a sleep of \<open>2 ^ i\<close> seconds and the
  next attempt, and the last one by \<open>None\<close>. Status 200 gives the body. In every case
  \<open>fetch_url\<close> returns a value, after at least one request and at most
  \<open>max_retries - retry_count + 1\<close> of them, and the semaphore is as before the call; no
  exception leaves it.
\<close>

theorem fetch_url_retry_policy:
  "(0 < free_slots s
      \<and> server w (n_requests (trace s)) url = Status code body \<and> code \<noteq> 200 \<and> code \<noteq> 429
      \<longrightarrow> fetch_from cfg w url k s
            = (s\<lparr>free_slots := free_slots s + k,
                 trace := trace s @ delay_events cfg @ [Get url]\<rparr>, Returned None))
   \<and> (max_retries cfg = int m \<and> m < free_slots s
      \<and> (\<forall>i\<le>m. retryable (server w (n_requests (trace s) + i) url))
      \<longrightarrow> fetch_url cfg w url s = (s\<lparr>trace := trace s @ retry_schedule cfg url m\<rparr>, Returned None))
   \<and> (0 < free_slots s \<and> server w (n_requests (trace s)) url = Status 200 body
      \<longrightarrow> fetch_from cfg w url k s
            = (s\<lparr>free_slots := free_slots s + k,
                 trace := trace s @ delay_events cfg @ [Get url]\<rparr>, Returned (Some body)))
   \<and> (nat (max_retries cfg - int k) < free_slots s
      \<longrightarrow> (\<exists>ext content. fetch_from cfg w url k s
               = (s\<lparr>free_slots := free_slots s + k, trace := trace s @ ext\<rparr>, Returned content)
             \<and> 1 \<le> n_requests ext
             \<and> int (n_requests ext) \<le> max 0 (max_retries cfg - int k) + 1))"
proof -
  have "max_retries cfg = int m \<and> m < free_slots s
      \<and> (\<forall>i\<le>m. retryable (server w (n_requests (trace s) + i) url))
      \<longrightarrow> fetch_url cfg w url s = (s\<lparr>trace := trace s @ retry_schedule cfg url m\<rparr>, Returned None)"
    using fetch_from_exhaust [of cfg m 0 s w url] by (simp add: retry_schedule_def fetch_url_def)
  then show ?thesis
    using fetch_from_other_status [of s w url code body cfg k]
          fetch_from_ok [of s w url body cfg k]
          fetch_from_returns [of cfg k s w url]
    by blast
qed

theorem fetch_url_retry_policy_witness:
  "fetch_from default_config (site_world []) ''https://shop.test/gone'' 0 (init_state default_config)
     = ((init_state default_config)
          \<lparr>free_slots := 10 + 0,
           trace := [] @ delay_events default_config @ [Get ''https://shop.test/gone'']\<rparr>, Returned None)
   \<and> fetch_url default_config rate_limited ''https://shop.test/c/shoes'' (init_state default_config)
     = ((init_state default_config)
          \<lparr>trace := [] @ retry_schedule default_config ''https://shop.test/c/shoes'' 2\<rparr>, Returned None)
   \<and> fetch_from default_config shop_test ''https://shop.test'' 0 (init_state default_config)
     = ((init_state default_config)
          \<lparr>free_slots := 10 + 0,
           trace := [] @ delay_events default_config @ [Get ''https://shop.test'']\<rparr>,
        Returned (Some ''page https://shop.test''))
   \<and> (\<exists>ext content.
         fetch_from default_config rate_limited ''https://shop.test/c/shoes'' 0 (init_state default_config)
           = ((init_state default_config)\<lparr>free_slots := 10 + 0, trace := [] @ ext\<rparr>, Returned content)
         \<and> 1 \<le> n_requests ext \<and> int (n_requests ext) \<le> max 0 (2 - int 0) + 1)"
  using fetch_url_retry_policy [of "init_state default_config" "site_world []"
          "''https://shop.test/gone''" 404 "''not found''" default_config 0 2]
        fetch_url_retry_policy [of "init_state default_config" rate_limited
          "''https://shop.test/c/shoes''" 0 "[]" default_config 0 2]
        fetch_url_retry_policy [of "init_state default_config" shop_test
          "''https://shop.test''" 200 "''page https://shop.test''" default_config 0 2]
  by (simp add: site_world_def shop_test_def rate_limited_def default_config_def CrawlerConfig_def
        init_state_def)

text \<open>
  The server answers 404, \<open>max_retries\<close> is 2 and ten slots are free: one request is made,
  there is no back-off, and the result is \<open>None\<close>.
\<close>

theorem fetch_url_404_not_retried:
  "max_retries default_config = 2
   \<and> server (site_world []) 0 ''https://shop.test/gone'' = Status 404 ''not found''
   \<and> free_slots (init_state default_config) = 10
   \<and> (case fetch_url default_config (site_world []) ''https://shop.test/gone'' (init_state default_config) of
        (s, r) \<Rightarrow>
          r = Returned None
          \<and> trace s = [Delay (1 / 2), Get ''https://shop.test/gone'']
          \<and> free_slots s = 10)"
  by code_simp

section \<open>Steps of the coroutines\<close>

lemma set_set_add [simp]: "set (set_add xs x) = insert x (set xs)"
  by (auto simp: set_add_def)

lemma set_set_update [simp]: "set (set_update xs ys) = set xs \<union> set ys"
  unfolding set_update_def by (induction ys arbitrary: xs) auto

lemma emit_simps [simp]:
  "visited_categories (emit e s) = visited_categories s"
  "product_urls (emit e s) = product_urls s"
  "visited_urls (emit e s) = visited_urls s"
  "free_slots (emit e s) = free_slots s"
  "trace (emit e s) = trace s @ [e]"
  by (simp_all add: emit_def)

lemma mark_visited_simps [simp]:
  "visited_categories (mark_visited domain u s) d =
     (if d = domain then set_add (visited_categories s domain) u else visited_categories s d)"
  "product_urls (mark_visited domain u s) = product_urls s"
  "visited_urls (mark_visited domain u s) = visited_urls s"
  "free_slots (mark_visited domain u s) = free_slots s"
  "trace (mark_visited domain u s) = trace s"
  by (simp_all add: mark_visited_def)

lemma add_products_simps [simp]:
  "visited_categories (add_products domain ps s) = visited_categories s"
  "product_urls (add_products domain ps s) d =
     (if d = domain then set_update (product_urls s domain) ps else product_urls s d)"
  "visited_urls (add_products domain ps s) = visited_urls s"
  "free_slots (add_products domain ps s) = free_slots s"
  "trace (add_products domain ps s) = trace s"
  by (simp_all add: add_products_def)

lemma delay_events_plain: "e \<in> set (delay_events cfg) \<Longrightarrow> \<not> is_crawl e \<and> \<not> is_get e"
  by (auto simp: delay_events_def split: if_splits)

text \<open>What an attempt does to the state.\<close>

lemma attempt_state:
  "visited_categories (fst (attempt cfg w url k s)) = visited_categories s"
  "product_urls (fst (attempt cfg w url k s)) = product_urls s"
  "visited_urls (fst (attempt cfg w url k s)) = visited_urls s"
  "\<exists>ext. trace (fst (attempt cfg w url k s)) = trace s @ delay_events cfg @ [Get url] @ ext
         \<and> (\<forall>e\<in>set ext. \<not> is_crawl e \<and> \<not> is_get e)"
  using attempt_cases[of k cfg w url s] by auto

text \<open>
  A step of a list of coroutines is a step of one of them, the others staying as they are.
\<close>

lemma gather_iff:
  "(s', ts') \<in> set (gather cfg w domain s ts) \<longleftrightarrow>
     (\<exists>pre c post c'. ts = pre @ c # post \<and> ts' = pre @ c' # post
        \<and> (s', c') \<in> set (crawl_category_pages cfg w domain s c))"
proof (induction ts arbitrary: ts')
  case Nil
  then show ?case by simp
next
  case (Cons t ts)
  show ?case
  proof
    assume "(s', ts') \<in> set (gather cfg w domain s (t # ts))"
    then consider (first) t' where "ts' = t' # ts" "(s', t') \<in> set (crawl_category_pages cfg w domain s t)"
      | (rest) ts'' where "ts' = t # ts''" "(s', ts'') \<in> set (gather cfg w domain s ts)"
      by auto
    then show "\<exists>pre c post c'. t # ts = pre @ c # post \<and> ts' = pre @ c' # post
        \<and> (s', c') \<in> set (crawl_category_pages cfg w domain s c)"
    proof cases
      case first
      then have "t # ts = [] @ t # ts \<and> ts' = [] @ t' # ts
        \<and> (s', t') \<in> set (crawl_category_pages cfg w domain s t)" by simp
      then show ?thesis by blast
    next
      case rest
      with Cons.IH[of ts''] obtain pre c post c' where
        "ts = pre @ c # post" "ts'' = pre @ c' # post"
        "(s', c') \<in> set (crawl_category_pages cfg w domain s c)" by blast
      then have "t # ts = (t # pre) @ c # post \<and> ts' = (t # pre) @ c' # post
        \<and> (s', c') \<in> set (crawl_category_pages cfg w domain s c)" using rest by simp
      then show ?thesis by blast
    qed
  next
    assume "\<exists>pre c post c'. t # ts = pre @ c # post \<and> ts' = pre @ c' # post
        \<and> (s', c') \<in> set (crawl_category_pages cfg w domain s c)"
    then obtain pre c post c' where
      h: "t # ts = pre @ c # post" "ts' = pre @ c' # post"
         "(s', c') \<in> set (crawl_category_pages cfg w domain s c)" by blast
    show "(s', ts') \<in> set (gather cfg w domain s (t # ts))"
    proof (cases pre)
      case Nil
      then show ?thesis using h by force
    next
      case (Cons a pre')
      then have "ts = pre' @ c # post" "t = a" using h(1) by simp_all
      then have "(s', pre' @ c' # post) \<in> set (gather cfg w domain s ts)"
        using Cons.IH[of "pre' @ c' # post"] h(3) by blast
      then show ?thesis using h(2) Cons \<open>t = a\<close> by force
    qed
  qed
qed

lemma crawl_domains_iff:
  "(s', ts') \<in> set (crawl_domains cfg w s ts) \<longleftrightarrow>
     (\<exists>pre c post c'. ts = pre @ c # post \<and> ts' = pre @ c' # post
        \<and> (s', c') \<in> set (crawl_domain cfg w s c))"
proof (induction ts arbitrary: ts')
  case Nil
  then show ?case by simp
next
  case (Cons t ts)
  show ?case
  proof
    assume "(s', ts') \<in> set (crawl_domains cfg w s (t # ts))"
    then consider (first) t' where "ts' = t' # ts" "(s', t') \<in> set (crawl_domain cfg w s t)"
      | (rest) ts'' where "ts' = t # ts''" "(s', ts'') \<in> set (crawl_domains cfg w s ts)"
      by auto
    then show "\<exists>pre c post c'. t # ts = pre @ c # post \<and> ts' = pre @ c' # post
        \<and> (s', c') \<in> set (crawl_domain cfg w s c)"
    proof cases
      case first
      then have "t # ts = [] @ t # ts \<and> ts' = [] @ t' # ts
        \<and> (s', t') \<in> set (crawl_domain cfg w s t)" by simp
      then show ?thesis by blast
    next
      case rest
      with Cons.IH[of ts''] obtain pre c post c' where
        "ts = pre @ c # post" "ts'' = pre @ c' # post"
        "(s', c') \<in> set (crawl_domain cfg w s c)" by blast
      then have "t # ts = (t # pre) @ c # post \<and> ts' = (t # pre) @ c' # post
        \<and> (s', c') \<in> set (crawl_domain cfg w s c)" using rest by simp
      then show ?thesis by blast
    qed
  next
    assume "\<exists>pre c post c'. t # ts = pre @ c # post \<and> ts' = pre @ c' # post
        \<and> (s', c') \<in> set (crawl_domain cfg w s c)"
    then obtain pre c post c' where
      h: "t # ts = pre @ c # post" "ts' = pre @ c' # post"
         "(s', c') \<in> set (crawl_domain cfg w s c)" by blast
    show "(s', ts') \<in> set (crawl_domains cfg w s (t # ts))"
    proof (cases pre)
      case Nil
      then show ?thesis using h by force
    next
      case (Cons a pre')
      then have "ts = pre' @ c # post" "t = a" using h(1) by simp_all
      then have "(s', pre' @ c' # post) \<in> set (crawl_domains cfg w s ts)"
        using Cons.IH[of "pre' @ c' # post"] h(3) by blast
      then show ?thesis using h(2) Cons \<open>t = a\<close> by force
    qed
  qed
qed

text \<open>
  Induction over the steps of a coroutine: the step is one of the coroutine itself, or of
  a coroutine it waits for.
\<close>

lemma crawl_step_induct [consumes 1, case_names Enter Attempt Expand Subs_wake Subs_child Pags_wake Pags_child]:
  assumes step: "(s', t') \<in> set (crawl_category_pages cfg w domain s t)"
    and Enter: "\<And>site u d. s' = fst (crawl_enter cfg domain site u d s)
                  \<Longrightarrow> P (Start site u d) (snd (crawl_enter cfg domain site u d s))"
    and Attempt: "\<And>u d k. 0 < free_slots s \<Longrightarrow> s' = fst (attempt cfg w u k s)
                  \<Longrightarrow> P (Fetch u d k)
                        (case snd (attempt cfg w u k s) of
                           None \<Rightarrow> Fetch u d (k + 1)
                         | Some content \<Rightarrow> crawl_fetched u d content)"
    and Expand: "\<And>u d body. s' = fst (crawl_expand cfg w domain d body s)
                  \<Longrightarrow> P (Parse u d body) (snd (crawl_expand cfg w domain d body s))"
    and Subs_wake: "\<And>d pls cs. list_all is_done cs \<Longrightarrow> s' = s
                  \<Longrightarrow> P (Subs d pls cs) (crawl_paginate s domain pls d)"
    and Subs_child: "\<And>d pls pre c post c'.
                  (s', c') \<in> set (crawl_category_pages cfg w domain s c) \<Longrightarrow> P c c'
                  \<Longrightarrow> P (Subs d pls (pre @ c # post)) (Subs d pls (pre @ c' # post))"
    and Pags_wake: "\<And>d cs. list_all is_done cs \<Longrightarrow> s' = s \<Longrightarrow> P (Pags d cs) Done"
    and Pags_child: "\<And>d pre c post c'.
                  (s', c') \<in> set (crawl_category_pages cfg w domain s c) \<Longrightarrow> P c c'
                  \<Longrightarrow> P (Pags d (pre @ c # post)) (Pags d (pre @ c' # post))"
  shows "P t t'"
  using step
proof (induction t arbitrary: t')
  case (Start site u d)
  then show ?case using Enter[of site u d] by (cases "crawl_enter cfg domain site u d s") auto
next
  case (Fetch u d k)
  then show ?case using Attempt[of u k d] by (auto split: if_splits)
next
  case (Parse u d body)
  then show ?case using Expand[of d body u] by (cases "crawl_expand cfg w domain d body s") auto
next
  case (Subs d pls cs)
  show ?case
  proof (cases "list_all is_done cs")
    case True
    then show ?thesis using Subs.prems Subs_wake[of cs d pls] by auto
  next
    case False
    then obtain cs' where cs': "t' = Subs d pls cs'" "(s', cs') \<in> set (gather cfg w domain s cs)"
      using Subs.prems by auto
    then obtain pre c post c' where
      h: "cs = pre @ c # post" "cs' = pre @ c' # post"
         "(s', c') \<in> set (crawl_category_pages cfg w domain s c)"
      unfolding gather_iff by blast
    then have "P c c'" using Subs.IH[of c c'] by simp
    then show ?thesis using Subs_child[OF h(3), of d pls pre post] h cs' by simp
  qed
next
  case (Pags d cs)
  show ?case
  proof (cases "list_all is_done cs")
    case True
    then show ?thesis using Pags.prems Pags_wake[of cs d] by auto
  next
    case False
    then obtain cs' where cs': "t' = Pags d cs'" "(s', cs') \<in> set (gather cfg w domain s cs)"
      using Pags.prems by auto
    then obtain pre c post c' where
      h: "cs = pre @ c # post" "cs' = pre @ c' # post"
         "(s', c') \<in> set (crawl_category_pages cfg w domain s c)"
      unfolding gather_iff by blast
    then have "P c c'" using Pags.IH[of c c'] by simp
    then show ?thesis using Pags_child[OF h(3), of d pre post] h cs' by simp
  qed
next
  case Done
  then show ?case by simp
qed

lemma grows_refl [simp]: "grows domain s s"
  by (simp add: grows_def)

lemma grows_trans: "grows domain s1 s2 \<Longrightarrow> grows domain s2 s3 \<Longrightarrow> grows domain s1 s3"
  unfolding grows_def
  apply (intro conjI)
      apply simp
     apply (metis subset_trans)
    apply (metis subset_trans)
   apply simp
  apply (metis append.assoc)
  done

lemma crawl_enter_grows: "grows domain s (fst (crawl_enter cfg domain site u d s))"
  by (auto simp: crawl_enter_def Let_def grows_def)

lemma attempt_grows: "grows domain s (fst (attempt cfg w url k s))"
  using attempt_state[of cfg w url k s] by (auto simp: grows_def)

lemma crawl_expand_fst:
  "fst (crawl_expand cfg w domain d body s)
     = add_products domain (fst (classify_page cfg w domain s body)) s"
  by (simp add: crawl_expand_def Let_def split: prod.splits list.splits)

lemma crawl_expand_grows: "grows domain s (fst (crawl_expand cfg w domain d body s))"
  by (auto simp: crawl_expand_fst grows_def)

lemma step_grows:
  assumes "(s', t') \<in> set (crawl_category_pages cfg w domain s t)"
  shows "grows domain s s'"
  by (rule crawl_step_induct[where P = "\<lambda>t t'. grows domain s s'", OF assms])
     (simp_all add: crawl_enter_grows attempt_grows crawl_expand_grows)

text \<open>The coroutines that an expansion creates.\<close>

lemma crawl_paginate_cases:
  "crawl_paginate s domain pls d = Done
   \<or> (\<exists>cs. crawl_paginate s domain pls d = Pags d cs \<and> cs \<noteq> []
         \<and> cs = map (\<lambda>v. Start From_pagination v d)
                  (filter (\<lambda>v. v \<notin> set (visited_categories s domain)) pls))"
  by (auto simp: crawl_paginate_def pagination_tasks_def create_task_def comp_def
           split: list.splits)

lemma crawl_expand_cases:
  "snd (crawl_expand cfg w domain d body s)
     = crawl_paginate (fst (crawl_expand cfg w domain d body s)) domain
         (snd (snd (classify_page cfg w domain s body))) d
   \<or> (int d < max_depth cfg
      \<and> (\<exists>cs. snd (crawl_expand cfg w domain d body s)
                 = Subs d (snd (snd (classify_page cfg w domain s body))) cs
              \<and> cs \<noteq> []
              \<and> (\<forall>c\<in>set cs. \<exists>v. c = Start From_subcategories v (d + 1)
                    \<and> v \<in> set (fst (snd (classify_page cfg w domain s body)))
                    \<and> v \<notin> set (visited_categories s domain))))"
proof -
  obtain ps scs pls where c: "classify_page cfg w domain s body = (ps, scs, pls)"
    by (cases "classify_page cfg w domain s body") auto
  let ?s3 = "add_products domain ps s"
  show ?thesis
  proof (cases "subcategory_tasks cfg ?s3 domain scs d")
    case Nil
    then show ?thesis using c by (simp add: crawl_expand_def Let_def)
  next
    case (Cons a as)
    then have lt: "int d < max_depth cfg"
      by (auto simp: subcategory_tasks_def split: if_splits)
    have "\<forall>x\<in>set (subcategory_tasks cfg ?s3 domain scs d).
            \<exists>v. create_task x = Start From_subcategories v (d + 1) \<and> v \<in> set scs
                \<and> v \<notin> set (visited_categories s domain)"
      by (auto simp: subcategory_tasks_def create_task_def py_slice_to_def Let_def
               split: if_splits dest: in_set_takeD)
    then show ?thesis using c Cons lt by (simp add: crawl_expand_def Let_def)
  qed
qed

section \<open>Depths of the coroutines\<close>

lemma depth_ok_plain: "\<forall>e\<in>set ext. \<not> is_crawl e \<Longrightarrow> depth_ok cfg tr \<Longrightarrow> depth_ok cfg (tr @ ext)"
  by (auto simp: depth_ok_def)

lemma crawl_paginate_depths:
  "int d \<le> max_depth cfg \<Longrightarrow> depths cfg (crawl_paginate s domain pls d)
     \<and> (\<forall>site. child_at site d (crawl_paginate s domain pls d))"
  using crawl_paginate_cases[of s domain pls d] by (auto simp: list_all_iff)

lemma crawl_expand_depths:
  "int d \<le> max_depth cfg \<Longrightarrow> depths cfg (snd (crawl_expand cfg w domain d body s))
     \<and> (\<forall>site. child_at site d (snd (crawl_expand cfg w domain d body s)))"
proof -
  assume d: "int d \<le> max_depth cfg"
  from crawl_expand_cases[of cfg w domain d body s] show ?thesis
  proof
    assume "snd (crawl_expand cfg w domain d body s)
      = crawl_paginate (fst (crawl_expand cfg w domain d body s)) domain
          (snd (snd (classify_page cfg w domain s body))) d"
    then show ?thesis
      using crawl_paginate_depths[OF d, of "fst (crawl_expand cfg w domain d body s)" domain
           "snd (snd (classify_page cfg w domain s body))"] by simp
  next
    assume "int d < max_depth cfg
      \<and> (\<exists>cs. snd (crawl_expand cfg w domain d body s)
                 = Subs d (snd (snd (classify_page cfg w domain s body))) cs
              \<and> cs \<noteq> []
              \<and> (\<forall>c\<in>set cs. \<exists>v. c = Start From_subcategories v (d + 1)
                    \<and> v \<in> set (fst (snd (classify_page cfg w domain s body)))
                    \<and> v \<notin> set (visited_categories s domain)))"
    then obtain cs where lt: "int d < max_depth cfg"
      and e: "snd (crawl_expand cfg w domain d body s)
                 = Subs d (snd (snd (classify_page cfg w domain s body))) cs"
      and cs: "\<forall>c\<in>set cs. \<exists>v. c = Start From_subcategories v (d + 1)" by blast
    have "list_all (child_at From_subcategories (d + 1)) cs" "list_all (depths cfg) cs"
      unfolding list_all_iff using cs lt by fastforce+
    then show ?thesis using e lt by simp
  qed
qed

lemma step_depths:
  assumes step: "(s', t') \<in> set (crawl_category_pages cfg w domain s t)"
    and ok: "depth_ok cfg (trace s)"
  shows "depths cfg t \<longrightarrow>
           depths cfg t' \<and> depth_ok cfg (trace s') \<and> (\<forall>site d. child_at site d t \<longrightarrow> child_at site d t')"
proof (rule crawl_step_induct[where P = "\<lambda>t t'. depths cfg t \<longrightarrow>
           depths cfg t' \<and> depth_ok cfg (trace s') \<and> (\<forall>site d. child_at site d t \<longrightarrow> child_at site d t')",
         OF step])
  fix site :: site and u :: string and d :: nat
  assume "s' = fst (crawl_enter cfg domain site u d s)"
  then show "depths cfg (Start site u d) \<longrightarrow>
           depths cfg (snd (crawl_enter cfg domain site u d s)) \<and> depth_ok cfg (trace s')
           \<and> (\<forall>site' d'. child_at site' d' (Start site u d)
                 \<longrightarrow> child_at site' d' (snd (crawl_enter cfg domain site u d s)))"
    using ok by (auto simp: crawl_enter_def Let_def depth_ok_def)
next
  fix u :: string and d k :: nat
  assume s': "s' = fst (attempt cfg w u k s)"
  from attempt_state(4)[of cfg w u k s] obtain ext where
    "trace s' = trace s @ (delay_events cfg @ [Get u] @ ext)" "\<forall>e\<in>set ext. \<not> is_crawl e"
    using s' by auto
  moreover have "\<forall>e\<in>set (delay_events cfg @ [Get u] @ ext). \<not> is_crawl e"
    using calculation(2) delay_events_plain[of _ cfg] by auto
  ultimately have "depth_ok cfg (trace s')" using ok depth_ok_plain by metis
  then show "depths cfg (Fetch u d k) \<longrightarrow>
           depths cfg (case snd (attempt cfg w u k s) of None \<Rightarrow> Fetch u d (k + 1)
                        | Some content \<Rightarrow> crawl_fetched u d content)
           \<and> depth_ok cfg (trace s')
           \<and> (\<forall>site' d'. child_at site' d' (Fetch u d k)
                 \<longrightarrow> child_at site' d' (case snd (attempt cfg w u k s) of None \<Rightarrow> Fetch u d (k + 1)
                        | Some content \<Rightarrow> crawl_fetched u d content))"
    by (auto simp: crawl_fetched_def split: option.splits)
next
  fix u :: string and d :: nat and body :: string
  assume "s' = fst (crawl_expand cfg w domain d body s)"
  then have "depth_ok cfg (trace s')" using ok by (simp add: crawl_expand_fst)
  then show "depths cfg (Parse u d body) \<longrightarrow>
           depths cfg (snd (crawl_expand cfg w domain d body s)) \<and> depth_ok cfg (trace s')
           \<and> (\<forall>site' d'. child_at site' d' (Parse u d body)
                 \<longrightarrow> child_at site' d' (snd (crawl_expand cfg w domain d body s)))"
    using crawl_expand_depths[of d cfg w domain body s] by auto
next
  fix d :: nat and pls :: "string list" and cs :: "task list"
  assume "list_all is_done cs" "s' = s"
  then show "depths cfg (Subs d pls cs) \<longrightarrow>
           depths cfg (crawl_paginate s domain pls d) \<and> depth_ok cfg (trace s')
           \<and> (\<forall>site' d'. child_at site' d' (Subs d pls cs)
                 \<longrightarrow> child_at site' d' (crawl_paginate s domain pls d))"
    using ok crawl_paginate_depths[of d cfg s domain pls] by auto
next
  fix d :: nat and pls :: "string list" and pre post :: "task list" and c c' :: task
  assume "depths cfg c \<longrightarrow>
           depths cfg c' \<and> depth_ok cfg (trace s') \<and> (\<forall>site d. child_at site d c \<longrightarrow> child_at site d c')"
  then show "depths cfg (Subs d pls (pre @ c # post)) \<longrightarrow>
           depths cfg (Subs d pls (pre @ c' # post)) \<and> depth_ok cfg (trace s')
           \<and> (\<forall>site' d'. child_at site' d' (Subs d pls (pre @ c # post))
                 \<longrightarrow> child_at site' d' (Subs d pls (pre @ c' # post)))"
    by simp
next
  fix d :: nat and cs :: "task list"
  assume "list_all is_done cs" "s' = s"
  then show "depths cfg (Pags d cs) \<longrightarrow>
           depths cfg Done \<and> depth_ok cfg (trace s')
           \<and> (\<forall>site' d'. child_at site' d' (Pags d cs) \<longrightarrow> child_at site' d' Done)"
    using ok by simp
next
  fix d :: nat and pre post :: "task list" and c c' :: task
  assume "depths cfg c \<longrightarrow>
           depths cfg c' \<and> depth_ok cfg (trace s') \<and> (\<forall>site d. child_at site d c \<longrightarrow> child_at site d c')"
  then show "depths cfg (Pags d (pre @ c # post)) \<longrightarrow>
           depths cfg (Pags d (pre @ c' # post)) \<and> depth_ok cfg (trace s')
           \<and> (\<forall>site' d'. child_at site' d' (Pags d (pre @ c # post))
                 \<longrightarrow> child_at site' d' (Pags d (pre @ c' # post)))"
    by simp
qed

text \<open>The coroutines that \<open>crawl_domain\<close> creates for its batches.\<close>

lemma crawl_batches_cases:
  "crawl_batches domain batches s = DDone
   \<or> (\<exists>cs rest. crawl_batches domain batches s = DBatch domain cs rest \<and> cs \<noteq> []
         \<and> (\<forall>c\<in>set cs. \<exists>v b. c = Start From_batch v 0 \<and> b \<in> set batches \<and> v \<in> set b)
         \<and> set rest \<subseteq> set batches)"
proof (induction batches)
  case Nil
  then show ?case by simp
next
  case (Cons batch batches)
  show ?case
  proof (cases "process_batch s domain batch")
    case Nil
    from Cons.IH show ?thesis
    proof
      assume "crawl_batches domain batches s = DDone"
      then show ?thesis using Nil by simp
    next
      assume "\<exists>cs rest. crawl_batches domain batches s = DBatch domain cs rest \<and> cs \<noteq> []
         \<and> (\<forall>c\<in>set cs. \<exists>v b. c = Start From_batch v 0 \<and> b \<in> set batches \<and> v \<in> set b)
         \<and> set rest \<subseteq> set batches"
      then obtain cs rest where h: "crawl_batches domain batches s = DBatch domain cs rest" "cs \<noteq> []"
        "\<forall>c\<in>set cs. \<exists>v b. c = Start From_batch v 0 \<and> b \<in> set batches \<and> v \<in> set b"
        "set rest \<subseteq> set batches" by blast
      have 1: "crawl_batches domain (batch # batches) s = DBatch domain cs rest"
        using h(1) Nil by simp
      have 2: "\<forall>c\<in>set cs. \<exists>v b. c = Start From_batch v 0 \<and> b \<in> set (batch # batches) \<and> v \<in> set b"
        using h(3) by fastforce
      have 3: "set rest \<subseteq> set (batch # batches)" using h(4) by auto
      show ?thesis using 1 2 3 h(2) by blast
    qed
  next
    case (Cons a as)
    have 1: "crawl_batches domain (batch # batches) s
               = DBatch domain (map create_task (process_batch s domain batch)) batches"
      using Cons by simp
    have 2: "\<forall>c\<in>set (map create_task (process_batch s domain batch)).
            \<exists>v b. c = Start From_batch v 0 \<and> b \<in> set (batch # batches) \<and> v \<in> set b"
      by (auto simp: process_batch_def create_task_def)
    have 3: "map create_task (process_batch s domain batch) \<noteq> []" using Cons by simp
    have 4: "set batches \<subseteq> set (batch # batches)" by auto
    show ?thesis using 1 2 3 4 by blast
  qed
qed

lemma set_foldl_set_add: "set (foldl set_add xs ys) = set xs \<union> set ys"
  using set_set_update[of xs ys] by (simp add: set_update_def)

lemma chunks_subset: "b \<in> set (chunks k xs) \<Longrightarrow> set b \<subseteq> set xs"
proof (induction k xs rule: chunks.induct)
  case (1 k xs)
  show ?case
  proof (cases "k = 0 \<or> xs = []")
    case True
    then show ?thesis using "1.prems" by (simp add: chunks.simps)
  next
    case False
    then have "chunks k xs = take k xs # chunks k (drop k xs)" by (subst chunks.simps) simp
    then consider "b = take k xs" | "b \<in> set (chunks k (drop k xs))" using "1.prems" by auto
    then show ?thesis
    proof cases
      case 1
      then show ?thesis by (simp add: set_take_subset)
    next
      case 2
      then have "set b \<subseteq> set (drop k xs)" using "1.IH" False by blast
      then show ?thesis using set_drop_subset by fast
    qed
  qed
qed

lemma category_batches_subset:
  "category_batches k xs = Some bs \<Longrightarrow> b \<in> set bs \<Longrightarrow> set b \<subseteq> set xs"
  by (auto simp: category_batches_def split: if_splits dest: chunks_subset)

text \<open>The steps of a \<open>crawl_domain\<close> coroutine, one by one.\<close>

lemma crawl_domain_cases [consumes 1, case_names Enter Attempt Parsed Batch_wake Batch_child]:
  assumes step: "(s', t') \<in> set (crawl_domain cfg w s t)"
    and Enter: "\<And>domain0. t = DStart domain0 \<Longrightarrow> s' = s \<Longrightarrow> t' = crawl_domain_enter domain0 s \<Longrightarrow> R"
    and Attempt: "\<And>domain k. t = DFetch domain k \<Longrightarrow> 0 < free_slots s
                  \<Longrightarrow> s' = fst (attempt cfg w (''https://'' @ domain) k s)
                  \<Longrightarrow> t' = (case snd (attempt cfg w (''https://'' @ domain) k s) of
                              None \<Rightarrow> DFetch domain (k + 1)
                            | Some content \<Rightarrow> crawl_domain_fetched domain content) \<Longrightarrow> R"
    and Parsed: "\<And>domain body. t = DParse domain body \<Longrightarrow> s' = s
                  \<Longrightarrow> t' = crawl_domain_parsed cfg w domain body s \<Longrightarrow> R"
    and Batch_wake: "\<And>domain cs batches. t = DBatch domain cs batches \<Longrightarrow> list_all is_done cs
                  \<Longrightarrow> s' = s \<Longrightarrow> t' = crawl_batches domain batches s \<Longrightarrow> R"
    and Batch_child: "\<And>domain batches pre c post c'. t = DBatch domain (pre @ c # post) batches
                  \<Longrightarrow> t' = DBatch domain (pre @ c' # post) batches
                  \<Longrightarrow> (s', c') \<in> set (crawl_category_pages cfg w domain s c) \<Longrightarrow> R"
  shows R
proof (cases t)
  case (DStart domain0)
  then show ?thesis using step Enter by simp
next
  case (DFetch domain k)
  then show ?thesis using step Attempt[of domain k] by (auto split: if_splits)
next
  case (DParse domain body)
  then show ?thesis using step Parsed by simp
next
  case (DBatch domain cs batches)
  show ?thesis
  proof (cases "list_all is_done cs")
    case True
    then show ?thesis using step DBatch Batch_wake by simp
  next
    case False
    then obtain cs' where cs': "t' = DBatch domain cs' batches" "(s', cs') \<in> set (gather cfg w domain s cs)"
      using step DBatch by auto
    then obtain pre c post c' where
      "cs = pre @ c # post" "cs' = pre @ c' # post"
      "(s', c') \<in> set (crawl_category_pages cfg w domain s c)"
      unfolding gather_iff by blast
    then show ?thesis using Batch_child[of domain pre c post batches c'] DBatch cs' by simp
  qed
next
  case DDone
  then show ?thesis using step by simp
next
  case DRaised
  then show ?thesis using step by simp
qed

lemma nexts_cases [consumes 1, case_names Step]:
  assumes "c' \<in> set (nexts cfg w c)"
    and "\<And>pre t post t'. snd c = pre @ t # post \<Longrightarrow> snd c' = pre @ t' # post
           \<Longrightarrow> (fst c', t') \<in> set (crawl_domain cfg w (fst c) t) \<Longrightarrow> R"
  shows R
proof -
  from assms(1) have "(fst c', snd c') \<in> set (crawl_domains cfg w (fst c) (snd c))"
    by (simp add: nexts_def)
  then obtain pre t post t' where "snd c = pre @ t # post" "snd c' = pre @ t' # post"
    "(fst c', t') \<in> set (crawl_domain cfg w (fst c) t)"
    unfolding crawl_domains_iff by blast
  then show R using assms(2) by blast
qed

lemma reaches_invariant:
  assumes "reaches cfg w c c'" and "I c"
    and "\<And>c c'. I c \<Longrightarrow> c' \<in> set (nexts cfg w c) \<Longrightarrow> I c'"
  shows "I c'"
  using assms by (induction rule: reaches.induct) auto

lemma domain_step_grows:
  assumes "(s', t') \<in> set (crawl_domain cfg w s t)"
  shows "\<exists>domain. grows domain s s'"
  using assms
proof (cases rule: crawl_domain_cases)
  case (Attempt domain k)
  then show ?thesis using attempt_grows by blast
next
  case (Batch_child domain batches pre c post c')
  then show ?thesis using step_grows by blast
qed (use grows_refl in blast)+

lemma nexts_grows:
  assumes "c' \<in> set (nexts cfg w c)"
  shows "\<exists>domain. grows domain (fst c) (fst c')"
  using assms by (cases rule: nexts_cases) (rule domain_step_grows)

lemma domain_step_depths:
  assumes step: "(s', t') \<in> set (crawl_domain cfg w s t)"
    and ok: "depth_ok cfg (trace s)" and t: "domain_depths cfg t"
  shows "domain_depths cfg t' \<and> depth_ok cfg (trace s')"
  using step
proof (cases rule: crawl_domain_cases)
  case (Enter domain0)
  then show ?thesis using ok by (simp add: crawl_domain_enter_def Let_def)
next
  case (Attempt domain k)
  from attempt_state(4)[of cfg w "''https://'' @ domain" k s] obtain ext where
    "trace s' = trace s @ (delay_events cfg @ [Get (''https://'' @ domain)] @ ext)"
    "\<forall>e\<in>set ext. \<not> is_crawl e"
    using Attempt(3) by auto
  moreover have "\<forall>e\<in>set (delay_events cfg @ [Get (''https://'' @ domain)] @ ext). \<not> is_crawl e"
    using calculation(2) delay_events_plain[of _ cfg] by auto
  ultimately have "depth_ok cfg (trace s')" using ok depth_ok_plain by metis
  then show ?thesis using Attempt(4) by (auto simp: crawl_domain_fetched_def split: option.splits)
next
  case (Parsed domain body)
  have "domain_depths cfg (crawl_batches domain batches s)" for batches
    using crawl_batches_cases[of domain batches s] by (fastforce simp: list_all_iff)
  then show ?thesis using Parsed ok
    by (auto simp: crawl_domain_parsed_def Let_def split: option.splits)
next
  case (Batch_wake domain cs batches)
  have "domain_depths cfg (crawl_batches domain batches s)"
    using crawl_batches_cases[of domain batches s] by (fastforce simp: list_all_iff)
  then show ?thesis using Batch_wake ok by simp
next
  case (Batch_child domain batches pre c post c')
  then have "depths cfg c" "child_at From_batch 0 c" using t by simp_all
  with step_depths[OF Batch_child(3) ok] have "depths cfg c'" "depth_ok cfg (trace s')"
    "child_at From_batch 0 c'" by blast+
  then show ?thesis using Batch_child t by simp
qed

text \<open>The depths in every configuration of a run.\<close>

lemma reachable_depths:
  assumes "reaches cfg w (initial cfg domains) c"
  shows "depth_ok cfg (trace (fst c)) \<and> list_all (domain_depths cfg) (snd c)"
proof (rule reaches_invariant[where I = "\<lambda>c. depth_ok cfg (trace (fst c)) \<and> list_all (domain_depths cfg) (snd c)",
        OF assms])
  show "depth_ok cfg (trace (fst (initial cfg domains)))
        \<and> list_all (domain_depths cfg) (snd (initial cfg domains))"
    by (simp add: initial_def init_state_def depth_ok_def list_all_iff)
next
  fix c c' :: conf
  assume inv: "depth_ok cfg (trace (fst c)) \<and> list_all (domain_depths cfg) (snd c)"
    and "c' \<in> set (nexts cfg w c)"
  from this(2) show "depth_ok cfg (trace (fst c')) \<and> list_all (domain_depths cfg) (snd c')"
  proof (cases rule: nexts_cases)
    case (Step pre t post t')
    then have "domain_depths cfg t" using inv by simp
    from domain_step_depths[OF Step(3) _ this] inv
    have "domain_depths cfg t'" "depth_ok cfg (trace (fst c'))" by simp_all
    then show ?thesis using Step inv by simp
  qed
qed

section \<open>Where the visited URLs come from\<close>

lemma requests_append [simp]: "requests (a @ b) = requests a @ requests b"
  by (simp add: requests_def)

lemma requests_Get [simp]: "requests [Get u] = [u]"
  by (simp add: requests_def)

lemma requests_plain: "\<forall>e\<in>set ext. \<not> is_get e \<Longrightarrow> requests ext = []"
proof (induction ext)
  case Nil
  then show ?case by (simp add: requests_def)
next
  case (Cons e ext)
  then have "requests ext = []" by simp
  moreover have "requests [e] = []" using Cons.prems by (cases e) (simp_all add: requests_def)
  ultimately show ?case using requests_append[of "[e]" ext] by simp
qed

lemma n_requests_requests: "n_requests tr = length (requests tr)"
proof (induction tr)
  case Nil
  then show ?case by (simp add: requests_def)
next
  case (Cons e tr)
  have "n_requests (e # tr) = n_requests [e] + n_requests tr"
    using n_requests_simps(2)[of "[e]" tr] by simp
  moreover have "requests (e # tr) = requests [e] @ requests tr"
    using requests_append[of "[e]" tr] by simp
  moreover have "n_requests [e] = length (requests [e])"
    by (cases e) (simp_all add: requests_def)
  ultimately show ?case using Cons.IH by simp
qed

lemma served_iff:
  "served w tr body \<longleftrightarrow>
     (\<exists>i<length (requests tr). server w i (requests tr ! i) = Status 200 body)"
proof
  assume "served w tr body"
  then obtain i where "i < length (requests tr)"
    "body \<in> set (case server w i (requests tr ! i) of
                     Status code body \<Rightarrow> if code = 200 then [body] else []
                   | Transport_error \<Rightarrow> [])"
    by (auto simp: served_def bodies_def)
  then show "\<exists>i<length (requests tr). server w i (requests tr ! i) = Status 200 body"
    by (cases "server w i (requests tr ! i)") (auto split: if_splits)
next
  assume "\<exists>i<length (requests tr). server w i (requests tr ! i) = Status 200 body"
  then obtain i where "i < length (requests tr)" "server w i (requests tr ! i) = Status 200 body"
    by blast
  then show "served w tr body" by (force simp: served_def bodies_def)
qed

lemma linked_iff:
  "linked w domain tr v \<longleftrightarrow>
     (\<exists>body. served w tr body \<and> v \<in> set (page_links w domain body))"
  by (auto simp: linked_def served_def list_ex_iff)

lemma served_mono: "served w tr body \<Longrightarrow> served w (tr @ ext) body"
proof -
  assume "served w tr body"
  then obtain i where i: "i < length (requests tr)" "server w i (requests tr ! i) = Status 200 body"
    unfolding served_iff by blast
  then have "i < length (requests (tr @ ext))" "requests (tr @ ext) ! i = requests tr ! i"
    by (simp_all add: nth_append)
  then show ?thesis unfolding served_iff using i(2) by metis
qed

lemma found_mono: "found cfg w domain tr v \<Longrightarrow> found cfg w domain (tr @ ext) v"
  unfolding found_def linked_iff using served_mono by blast

lemma sourced_mono: "sourced cfg w domain tr t \<Longrightarrow> sourced cfg w domain (tr @ ext) t"
  by (induction t) (auto simp: list_all_iff served_mono found_mono)

lemma domain_sourced_mono: "domain_sourced cfg w tr t \<Longrightarrow> domain_sourced cfg w (tr @ ext) t"
  by (cases t) (auto simp: list_all_iff served_mono found_mono sourced_mono)

lemma visited_found_mono:
  "visited_found cfg w s \<Longrightarrow> visited_categories s' = visited_categories s
   \<Longrightarrow> trace s' = trace s @ ext \<Longrightarrow> visited_found cfg w s'"
  by (auto simp: visited_found_def list_all_iff found_mono)

text \<open>A body that \<open>fetch_url\<close> returns was served to its last request.\<close>

lemma attempt_served:
  assumes "snd (attempt cfg w u k s) = Some (Some body)"
  shows "served w (trace (fst (attempt cfg w u k s))) body"
proof -
  have r: "server w (n_requests (trace s)) u = Status 200 body"
    using assms
    by (cases "server w (n_requests (trace s)) u") (auto simp: attempt_def Let_def split: if_splits)
  then have t: "trace (fst (attempt cfg w u k s)) = trace s @ delay_events cfg @ [Get u]"
    by (simp add: attempt_ok)
  have "requests (delay_events cfg) = []"
    using requests_plain[of "delay_events cfg"] delay_events_plain[of _ cfg] by blast
  then have q: "requests (trace (fst (attempt cfg w u k s))) = requests (trace s) @ [u]"
    using t by simp
  have "length (requests (trace s)) < length (requests (trace (fst (attempt cfg w u k s))))"
       "requests (trace (fst (attempt cfg w u k s))) ! length (requests (trace s)) = u"
    using q by simp_all
  then show ?thesis unfolding served_iff using r n_requests_requests[of "trace s"] by metis
qed

lemma classify_links_sets:
  "foldl (classify_link cfg visited) (ps, scs, pls) links = (ps', scs', pls') \<Longrightarrow>
     set ps' = set ps \<union> {u \<in> set links. is_product_url cfg u}
   \<and> set scs' = set scs \<union> {u \<in> set links. \<not> is_product_url cfg u \<and> is_category_url cfg u \<and> u \<notin> set visited}
   \<and> set pls' = set pls \<union> {u \<in> set links. is_pagination_url cfg u}"
proof (induction links arbitrary: ps scs pls)
  case Nil
  then show ?case by simp
next
  case (Cons u us)
  obtain p1 s1 l1 where step: "classify_link cfg visited (ps, scs, pls) u = (p1, s1, l1)"
    by (cases "classify_link cfg visited (ps, scs, pls) u") auto
  then have 1: "set p1 = set ps \<union> {x. x = u \<and> is_product_url cfg u}"
    and 2: "set s1 = set scs \<union> {x. x = u \<and> \<not> is_product_url cfg u \<and> is_category_url cfg u \<and> u \<notin> set visited}"
    and 3: "set l1 = set pls \<union> {x. x = u \<and> is_pagination_url cfg u}"
    by (auto simp: classify_link_def split: if_splits)
  from Cons.prems step have "foldl (classify_link cfg visited) (p1, s1, l1) us = (ps', scs', pls')"
    by simp
  from Cons.IH[OF this] show ?case using 1 2 3 by auto
qed

text \<open>What \<open>process_page\<close> makes of the links of a page, in the state in which it sorts them.\<close>

lemma classify_page_sets:
  "set (fst (classify_page cfg w domain s body))
     = {u \<in> set (page_links w domain body). is_product_url cfg u}"
  "set (fst (snd (classify_page cfg w domain s body)))
     = {u \<in> set (page_links w domain body).
          \<not> is_product_url cfg u \<and> is_category_url cfg u \<and> u \<notin> set (visited_categories s domain)}"
  "set (snd (snd (classify_page cfg w domain s body)))
     = {u \<in> set (page_links w domain body). is_pagination_url cfg u}"
proof -
  obtain ps scs pls where c: "classify_page cfg w domain s body = (ps, scs, pls)"
    by (cases "classify_page cfg w domain s body") auto
  then have "foldl (classify_link cfg (visited_categories s domain)) ([], [], []) (page_links w domain body)
           = (ps, scs, pls)" by (simp add: classify_page_def)
  from classify_links_sets[OF this] c
  show "set (fst (classify_page cfg w domain s body))
     = {u \<in> set (page_links w domain body). is_product_url cfg u}"
  "set (fst (snd (classify_page cfg w domain s body)))
     = {u \<in> set (page_links w domain body).
          \<not> is_product_url cfg u \<and> is_category_url cfg u \<and> u \<notin> set (visited_categories s domain)}"
  "set (snd (snd (classify_page cfg w domain s body)))
     = {u \<in> set (page_links w domain body). is_pagination_url cfg u}"
    by simp_all
qed

lemma crawl_paginate_sourced:
  "list_all (found cfg w domain tr) pls \<Longrightarrow> sourced cfg w domain tr (crawl_paginate s domain pls d)"
  using crawl_paginate_cases[of s domain pls d] by (auto simp: list_all_iff)

lemma crawl_expand_sourced:
  assumes "served w (trace s) body"
  shows "sourced cfg w domain (trace s) (snd (crawl_expand cfg w domain d body s))"
proof -
  let ?pls = "snd (snd (classify_page cfg w domain s body))"
  have pls: "list_all (found cfg w domain (trace s)) ?pls"
    unfolding list_all_iff found_def linked_iff using assms classify_page_sets(3)[of cfg w domain s body]
    by auto
  from crawl_expand_cases[of cfg w domain d body s] show ?thesis
  proof
    assume "snd (crawl_expand cfg w domain d body s)
      = crawl_paginate (fst (crawl_expand cfg w domain d body s)) domain ?pls d"
    then show ?thesis using crawl_paginate_sourced[OF pls] by simp
  next
    assume "int d < max_depth cfg
      \<and> (\<exists>cs. snd (crawl_expand cfg w domain d body s) = Subs d ?pls cs
              \<and> cs \<noteq> []
              \<and> (\<forall>c\<in>set cs. \<exists>v. c = Start From_subcategories v (d + 1)
                    \<and> v \<in> set (fst (snd (classify_page cfg w domain s body)))
                    \<and> v \<notin> set (visited_categories s domain)))"
    then obtain cs where e: "snd (crawl_expand cfg w domain d body s) = Subs d ?pls cs"
      and cs: "\<forall>c\<in>set cs. \<exists>v. c = Start From_subcategories v (d + 1)
                    \<and> v \<in> set (fst (snd (classify_page cfg w domain s body)))" by blast
    have "\<forall>c\<in>set cs. sourced cfg w domain (trace s) c"
    proof
      fix c assume "c \<in> set cs"
      with cs obtain v where v: "c = Start From_subcategories v (d + 1)"
        "v \<in> set (fst (snd (classify_page cfg w domain s body)))" by blast
      then have "v \<in> set (page_links w domain body)" "is_category_url cfg v"
        using classify_page_sets(2)[of cfg w domain s body] by auto
      then have "found cfg w domain (trace s) v"
        unfolding found_def linked_iff using assms by blast
      then show "sourced cfg w domain (trace s) c" using v by simp
    qed
    then show ?thesis using e pls by (simp add: list_all_iff)
  qed
qed

lemma step_sourced:
  assumes step: "(s', t') \<in> set (crawl_category_pages cfg w domain s t)"
    and vf: "visited_found cfg w s"
  shows "sourced cfg w domain (trace s) t \<longrightarrow>
           sourced cfg w domain (trace s') t' \<and> visited_found cfg w s'"
proof (rule crawl_step_induct[where P = "\<lambda>t t'. sourced cfg w domain (trace s) t \<longrightarrow>
           sourced cfg w domain (trace s') t' \<and> visited_found cfg w s'", OF step])
  fix site :: site and u :: string and d :: nat
  assume s': "s' = fst (crawl_enter cfg domain site u d s)"
  show "sourced cfg w domain (trace s) (Start site u d) \<longrightarrow>
          sourced cfg w domain (trace s') (snd (crawl_enter cfg domain site u d s))
          \<and> visited_found cfg w s'"
  proof
    assume "sourced cfg w domain (trace s) (Start site u d)"
    then have f: "found cfg w domain (trace s @ [Crawl site u d]) u" using found_mono by simp
    have v: "visited_found cfg w (emit (Crawl site u d) s)"
      using visited_found_mono[OF vf, of "emit (Crawl site u d) s" "[Crawl site u d]"] by simp
    then have "visited_found cfg w (mark_visited domain u (emit (Crawl site u d) s))"
      using f by (auto simp: visited_found_def list_all_iff)
    then show "sourced cfg w domain (trace s') (snd (crawl_enter cfg domain site u d s))
          \<and> visited_found cfg w s'"
      using s' v by (auto simp: crawl_enter_def Let_def)
  qed
next
  fix u :: string and d k :: nat
  assume s': "s' = fst (attempt cfg w u k s)"
  from attempt_state[of cfg w u k s] obtain ext where
    e: "visited_categories s' = visited_categories s" "trace s' = trace s @ ext"
    using s' by auto
  have v: "visited_found cfg w s'" using visited_found_mono[OF vf e] .
  have "sourced cfg w domain (trace s')
          (case snd (attempt cfg w u k s) of None \<Rightarrow> Fetch u d (k + 1)
           | Some content \<Rightarrow> crawl_fetched u d content)"
    using attempt_served[of cfg w u k s] s'
    by (auto simp: crawl_fetched_def split: option.splits)
  then show "sourced cfg w domain (trace s) (Fetch u d k) \<longrightarrow>
          sourced cfg w domain (trace s')
            (case snd (attempt cfg w u k s) of None \<Rightarrow> Fetch u d (k + 1)
             | Some content \<Rightarrow> crawl_fetched u d content)
          \<and> visited_found cfg w s'"
    using v by simp
next
  fix u :: string and d :: nat and body :: string
  assume s': "s' = fst (crawl_expand cfg w domain d body s)"
  then have e: "visited_categories s' = visited_categories s" "trace s' = trace s @ []"
    by (simp_all add: crawl_expand_fst)
  have v: "visited_found cfg w s'" using visited_found_mono[OF vf e] .
  show "sourced cfg w domain (trace s) (Parse u d body) \<longrightarrow>
          sourced cfg w domain (trace s') (snd (crawl_expand cfg w domain d body s))
          \<and> visited_found cfg w s'"
    using crawl_expand_sourced[of w s body cfg domain d] v e(2) by simp
next
  fix d :: nat and pls :: "string list" and cs :: "task list"
  assume "list_all is_done cs" "s' = s"
  then show "sourced cfg w domain (trace s) (Subs d pls cs) \<longrightarrow>
          sourced cfg w domain (trace s') (crawl_paginate s domain pls d) \<and> visited_found cfg w s'"
    using vf crawl_paginate_sourced[of cfg w domain "trace s" pls s d] by simp
next
  fix d :: nat and pls :: "string list" and pre post :: "task list" and c c' :: task
  assume st: "(s', c') \<in> set (crawl_category_pages cfg w domain s c)"
    and ih: "sourced cfg w domain (trace s) c \<longrightarrow>
          sourced cfg w domain (trace s') c' \<and> visited_found cfg w s'"
  from step_grows[OF st] obtain ext where ext: "trace s' = trace s @ ext"
    by (auto simp: grows_def)
  show "sourced cfg w domain (trace s) (Subs d pls (pre @ c # post)) \<longrightarrow>
          sourced cfg w domain (trace s') (Subs d pls (pre @ c' # post)) \<and> visited_found cfg w s'"
    using ih ext sourced_mono[of cfg w domain "trace s" _ ext]
          found_mono[of cfg w domain "trace s" _ ext]
    by (auto simp: list_all_iff)
next
  fix d :: nat and cs :: "task list"
  assume "list_all is_done cs" "s' = s"
  then show "sourced cfg w domain (trace s) (Pags d cs) \<longrightarrow>
          sourced cfg w domain (trace s') Done \<and> visited_found cfg w s'"
    using vf by simp
next
  fix d :: nat and pre post :: "task list" and c c' :: task
  assume st: "(s', c') \<in> set (crawl_category_pages cfg w domain s c)"
    and ih: "sourced cfg w domain (trace s) c \<longrightarrow>
          sourced cfg w domain (trace s') c' \<and> visited_found cfg w s'"
  from step_grows[OF st] obtain ext where ext: "trace s' = trace s @ ext"
    by (auto simp: grows_def)
  show "sourced cfg w domain (trace s) (Pags d (pre @ c # post)) \<longrightarrow>
          sourced cfg w domain (trace s') (Pags d (pre @ c' # post)) \<and> visited_found cfg w s'"
    using ih ext sourced_mono[of cfg w domain "trace s" _ ext]
    by (auto simp: list_all_iff)
qed

lemma crawl_batches_sourced:
  assumes "list_all (list_all (found cfg w domain tr)) batches"
  shows "domain_sourced cfg w tr (crawl_batches domain batches s)"
proof -
  from crawl_batches_cases[of domain batches s] show ?thesis
  proof
    assume "crawl_batches domain batches s = DDone"
    then show ?thesis by simp
  next
    assume "\<exists>cs rest. crawl_batches domain batches s = DBatch domain cs rest \<and> cs \<noteq> []
         \<and> (\<forall>c\<in>set cs. \<exists>v b. c = Start From_batch v 0 \<and> b \<in> set batches \<and> v \<in> set b)
         \<and> set rest \<subseteq> set batches"
    then obtain cs rest where h: "crawl_batches domain batches s = DBatch domain cs rest"
      "\<forall>c\<in>set cs. \<exists>v b. c = Start From_batch v 0 \<and> b \<in> set batches \<and> v \<in> set b"
      "set rest \<subseteq> set batches" by blast
    have "\<forall>c\<in>set cs. sourced cfg w domain tr c"
    proof
      fix c assume "c \<in> set cs"
      with h(2) obtain v b where "c = Start From_batch v 0" "b \<in> set batches" "v \<in> set b" by blast
      then show "sourced cfg w domain tr c" using assms by (auto simp: list_all_iff)
    qed
    moreover have "list_all (list_all (found cfg w domain tr)) rest"
      using assms h(3) by (auto simp: list_all_iff)
    ultimately show ?thesis using h(1) by (simp add: list_all_iff)
  qed
qed

lemma crawl_domain_parsed_sourced:
  assumes "served w tr body"
  shows "domain_sourced cfg w tr (crawl_domain_parsed cfg w domain body s)"
proof (cases "category_batches (batch_size cfg)
                (foldl set_add [] (filter (is_category_url cfg)
                   (map (urljoin w (''https://'' @ domain)) (find_all_a w body))))")
  case None
  then show ?thesis by (simp add: crawl_domain_parsed_def Let_def)
next
  case (Some batches)
  have "\<forall>b\<in>set batches. \<forall>v\<in>set b. found cfg w domain tr v"
  proof (intro ballI)
    fix b v assume "b \<in> set batches" "v \<in> set b"
    with category_batches_subset[OF Some] have
      "v \<in> set (foldl set_add [] (filter (is_category_url cfg)
                   (map (urljoin w (''https://'' @ domain)) (find_all_a w body))))" by blast
    then have "v \<in> set (page_links w domain body)" "is_category_url cfg v"
      by (auto simp: set_foldl_set_add page_links_def)
    then show "found cfg w domain tr v" unfolding found_def linked_iff using assms by blast
  qed
  then have "list_all (list_all (found cfg w domain tr)) batches" by (simp add: list_all_iff)
  from crawl_batches_sourced[OF this] show ?thesis using Some
    by (simp add: crawl_domain_parsed_def Let_def)
qed

lemma domain_step_sourced:
  assumes step: "(s', t') \<in> set (crawl_domain cfg w s t)"
    and vf: "visited_found cfg w s" and t: "domain_sourced cfg w (trace s) t"
  shows "domain_sourced cfg w (trace s') t' \<and> visited_found cfg w s'"
  using step
proof (cases rule: crawl_domain_cases)
  case (Enter domain0)
  then show ?thesis using vf by (simp add: crawl_domain_enter_def Let_def)
next
  case (Attempt domain k)
  from attempt_state[of cfg w "''https://'' @ domain" k s] obtain ext where
    e: "visited_categories s' = visited_categories s" "trace s' = trace s @ ext"
    using Attempt(3) by auto
  have v: "visited_found cfg w s'" using visited_found_mono[OF vf e] .
  have "domain_sourced cfg w (trace s') t'"
    using attempt_served[of cfg w "''https://'' @ domain" k s] Attempt(3,4)
    by (auto simp: crawl_domain_fetched_def split: option.splits)
  then show ?thesis using v by simp
next
  case (Parsed domain body)
  then show ?thesis using vf t crawl_domain_parsed_sourced[of w "trace s" body cfg domain s] by simp
next
  case (Batch_wake domain cs batches)
  then show ?thesis using vf t crawl_batches_sourced[of cfg w domain "trace s" batches s] by simp
next
  case (Batch_child domain batches pre c post c')
  from step_grows[OF Batch_child(3)] obtain ext where ext: "trace s' = trace s @ ext"
    by (auto simp: grows_def)
  have "sourced cfg w domain (trace s) c" using t Batch_child(1) by simp
  with step_sourced[OF Batch_child(3) vf] have
    c': "sourced cfg w domain (trace s') c'" and v: "visited_found cfg w s'" by blast+
  have "domain_sourced cfg w (trace s') (DBatch domain (pre @ c # post) batches)"
    using t Batch_child(1) domain_sourced_mono[of cfg w "trace s" t ext] ext by simp
  then show ?thesis using Batch_child(2) c' v by simp
qed

text \<open>
  In every configuration of a run \<open>visited_urls\<close> is as it was at the start, and every
  visited URL is a category or pagination link of a page that was fetched.
\<close>

lemma reachable_found:
  assumes "reaches cfg w (initial cfg domains) c"
  shows "visited_urls (fst c) = (\<lambda>d. []) \<and> visited_found cfg w (fst c)
         \<and> list_all (domain_sourced cfg w (trace (fst c))) (snd c)"
proof (rule reaches_invariant[where I = "\<lambda>c. visited_urls (fst c) = (\<lambda>d. []) \<and> visited_found cfg w (fst c)
         \<and> list_all (domain_sourced cfg w (trace (fst c))) (snd c)", OF assms])
  show "visited_urls (fst (initial cfg domains)) = (\<lambda>d. []) \<and> visited_found cfg w (fst (initial cfg domains))
         \<and> list_all (domain_sourced cfg w (trace (fst (initial cfg domains)))) (snd (initial cfg domains))"
    by (simp add: initial_def init_state_def visited_found_def list_all_iff)
next
  fix c c' :: conf
  assume inv: "visited_urls (fst c) = (\<lambda>d. []) \<and> visited_found cfg w (fst c)
         \<and> list_all (domain_sourced cfg w (trace (fst c))) (snd c)"
    and n: "c' \<in> set (nexts cfg w c)"
  from nexts_grows[OF n] obtain domain ext where
    g: "visited_urls (fst c') = visited_urls (fst c)" "trace (fst c') = trace (fst c) @ ext"
    by (auto simp: grows_def)
  from n show "visited_urls (fst c') = (\<lambda>d. []) \<and> visited_found cfg w (fst c')
         \<and> list_all (domain_sourced cfg w (trace (fst c'))) (snd c')"
  proof (cases rule: nexts_cases)
    case (Step pre t post t')
    then have "domain_sourced cfg w (trace (fst c)) t" using inv by simp
    from domain_step_sourced[OF Step(3) _ this] inv
    have 1: "domain_sourced cfg w (trace (fst c')) t'" "visited_found cfg w (fst c')" by simp_all
    have 2: "list_all (domain_sourced cfg w (trace (fst c'))) pre"
            "list_all (domain_sourced cfg w (trace (fst c'))) post"
      using inv Step(1) g(2) domain_sourced_mono[of cfg w "trace (fst c)" _ ext]
      by (auto simp: list_all_iff)
    show ?thesis using 1 2 g(1) inv Step(2) by simp
  qed
qed

section \<open>Runs\<close>

text \<open>
  \<open>outcomes\<close> lists the ends of the runs and nothing else: every entry is the state of a
  configuration that a run leads to, and when no entry is \<open>Unfinished\<close> every
  configuration in which a run stops is among the entries.
\<close>

lemma outcomes_reaches:
  "r \<in> set (outcomes cfg w n c)
   \<Longrightarrow> \<exists>c'. reaches cfg w c c' \<and> fst c' = state_of r
            \<and> (is_unfinished r \<or> (nexts cfg w c' = [] \<and> r = stopped c'))"
proof (induction n arbitrary: c)
  case 0
  then have "r = Unfinished (fst c)" by simp
  then have "reaches cfg w c c \<and> fst c = state_of r
            \<and> (is_unfinished r \<or> (nexts cfg w c = [] \<and> r = stopped c))"
    using reaches.here[of cfg w c] by simp
  then show ?case by blast
next
  case (Suc n)
  show ?case
  proof (cases "nexts cfg w c")
    case Nil
    then have "r = stopped c" using Suc.prems by (simp add: stopped_def)
    then have "fst c = state_of r" by (simp add: stopped_def)
    then show ?thesis using reaches.here[of cfg w c] Nil \<open>r = stopped c\<close> by metis
  next
    case (Cons c1 cs)
    then have "r \<in> set (concat (map (outcomes cfg w n) (nexts cfg w c)))"
      using Suc.prems by simp
    then obtain c2 where c2: "c2 \<in> set (nexts cfg w c)" "r \<in> set (outcomes cfg w n c2)"
      by auto
    from Suc.IH[OF c2(2)] obtain c' where
      "reaches cfg w c2 c'" "fst c' = state_of r"
      "is_unfinished r \<or> (nexts cfg w c' = [] \<and> r = stopped c')" by blast
    then show ?thesis using reaches.step[OF c2(1)] by blast
  qed
qed

lemma outcomes_complete:
  assumes "reaches cfg w c c'" and "nexts cfg w c' = []"
    and "\<forall>r\<in>set (outcomes cfg w n c). \<not> is_unfinished r"
  shows "stopped c' \<in> set (outcomes cfg w n c)"
  using assms
proof (induction n arbitrary: c)
  case 0
  then show ?case by simp
next
  case (Suc n)
  from Suc.prems(1) show ?case
  proof (cases rule: reaches.cases)
    case here
    then show ?thesis using Suc.prems(2) by (simp add: stopped_def)
  next
    case (step c1)
    then obtain x xs where n: "nexts cfg w c = x # xs" by (cases "nexts cfg w c") auto
    then have sub: "set (outcomes cfg w n c1) \<subseteq> set (outcomes cfg w (Suc n) c)"
      using step(1) by auto
    then have "\<forall>r\<in>set (outcomes cfg w n c1). \<not> is_unfinished r" using Suc.prems(3) by blast
    from Suc.IH[OF step(2) Suc.prems(2) this] show ?thesis using sub by blast
  qed
qed

section \<open>Properties of page processing\<close>

text \<open>\<open>fetch_url\<close> changes the semaphore and the trace only.\<close>

lemma fetch_from_state:
  "visited_categories (fst (fetch_from cfg w url k s)) = visited_categories s
   \<and> product_urls (fst (fetch_from cfg w url k s)) = product_urls s
   \<and> visited_urls (fst (fetch_from cfg w url k s)) = visited_urls s"
proof (induction cfg w url k s rule: fetch_from.induct)
  case (1 cfg w url retry_count s)
  show ?case
  proof (cases "free_slots s = 0")
    case True
    then show ?thesis by (simp add: fetch_from_blocked)
  next
    case False
    show ?thesis
    proof (cases "snd (attempt cfg w url retry_count s)")
      case None
      then have "fetch_from cfg w url retry_count s
                   = fetch_from cfg w url (retry_count + 1) (fst (attempt cfg w url retry_count s))"
        using False by (subst fetch_from.simps) simp
      then show ?thesis using "1.IH"[OF False None] attempt_state(1-3)[of cfg w url retry_count s]
        by simp
    next
      case (Some content)
      then have "fst (fetch_from cfg w url retry_count s) = fst (attempt cfg w url retry_count s)"
        using False by (subst fetch_from.simps) simp
      then show ?thesis using attempt_state(1-3)[of cfg w url retry_count s] by simp
    qed
  qed
qed

text \<open>
  Claim C3, as the source has it. On a page that was fetched, the links found are sorted
  by one \<open>if\<close>/\<open>elif\<close> and a separate \<open>if\<close>: every product link is a product; a
  category link is a subcategory candidate only when it is not a product link and is not
  yet visited; every pagination link is a pagination candidate, whatever else it is. The
  products then all enter the product set of the domain, which is also what the step of
  \<open>crawl_category_pages\<close> after the parser does.
\<close>

theorem process_page_classification:
  assumes "fetch_url cfg w page_url s = (s1, Returned (Some body))" and "body \<noteq> []"
    and "process_page cfg w domain page_url s = (s', Some (products, subcategories, pagination_links))"
  shows "set products = {u \<in> set (page_links w domain body). is_product_url cfg u}
    \<and> set subcategories = {u \<in> set (page_links w domain body).
          \<not> is_product_url cfg u \<and> is_category_url cfg u \<and> u \<notin> set (visited_categories s domain)}
    \<and> set pagination_links = {u \<in> set (page_links w domain body). is_pagination_url cfg u}
    \<and> set (product_urls (add_products domain products s') domain)
         = set (product_urls s domain) \<union> set products
    \<and> fst (crawl_expand cfg w domain depth body s') = add_products domain products s'"
proof -
  from assms have s': "s' = s1"
    and cl: "classify_page cfg w domain s1 body = (products, subcategories, pagination_links)"
    by (auto simp: process_page_def)
  have same: "visited_categories s1 = visited_categories s" "product_urls s1 = product_urls s"
    using fetch_from_state[of cfg w page_url 0 s] assms(1) by (simp_all add: fetch_url_def)
  from classify_page_sets[of cfg w domain s1 body] cl same s' show ?thesis
    by (simp add: crawl_expand_fst)
qed

theorem process_page_classification_witness:
  "set [''https://shop.test/p/42'']
     = {u \<in> set (page_links shop_test ''shop.test'' ''page https://shop.test/c/shoes'').
          is_product_url default_config u}
   \<and> set [''https://shop.test/c/shoes?page=2'']
     = {u \<in> set (page_links shop_test ''shop.test'' ''page https://shop.test/c/shoes'').
          \<not> is_product_url default_config u \<and> is_category_url default_config u
          \<and> u \<notin> set (visited_categories (init_state default_config) ''shop.test'')}
   \<and> set [''https://shop.test/p/42'', ''https://shop.test/c/shoes?page=2'']
     = {u \<in> set (page_links shop_test ''shop.test'' ''page https://shop.test/c/shoes'').
          is_pagination_url default_config u}"
proof -
  let ?s = "init_state default_config"
  let ?f = "fetch_url default_config shop_test ''https://shop.test/c/shoes'' ?s"
  let ?p = "process_page default_config shop_test ''shop.test'' ''https://shop.test/c/shoes'' ?s"
  have "snd ?f = Returned (Some ''page https://shop.test/c/shoes'')" by code_simp
  then have f: "?f = (fst ?f, Returned (Some ''page https://shop.test/c/shoes''))"
    by (metis prod.collapse)
  have b: "''page https://shop.test/c/shoes'' \<noteq> []" by simp
  have "snd ?p = Some ([''https://shop.test/p/42''], [''https://shop.test/c/shoes?page=2''],
                  [''https://shop.test/p/42'', ''https://shop.test/c/shoes?page=2''])"
    by code_simp
  then have p: "?p = (fst ?p, Some ([''https://shop.test/p/42''], [''https://shop.test/c/shoes?page=2''],
                  [''https://shop.test/p/42'', ''https://shop.test/c/shoes?page=2'']))"
    by (metis prod.collapse)
  from process_page_classification[OF f b p] show ?thesis by blast
qed

text \<open>
  On the listing page of \<open>shop.test\<close> the link \<open>/p/42\<close> is a product link and a
  category link and has not been visited; it is among the products and not among the
  subcategory candidates.
\<close>

theorem product_link_not_subcategory:
  "is_product_url default_config ''https://shop.test/p/42''
   \<and> is_category_url default_config ''https://shop.test/p/42''
   \<and> ''https://shop.test/p/42'' \<in> set (page_links shop_test ''shop.test'' ''page https://shop.test/c/shoes'')
   \<and> ''https://shop.test/p/42'' \<notin> set (visited_categories (init_state default_config) ''shop.test'')
   \<and> snd (fetch_url default_config shop_test ''https://shop.test/c/shoes'' (init_state default_config))
        = Returned (Some ''page https://shop.test/c/shoes'')
   \<and> snd (process_page default_config shop_test ''shop.test'' ''https://shop.test/c/shoes''
             (init_state default_config))
        = Some ([''https://shop.test/p/42''], [''https://shop.test/c/shoes?page=2''],
                [''https://shop.test/p/42'', ''https://shop.test/c/shoes?page=2''])"
  by code_simp

lemma single_finished:
  "(case rs of [Finished s] \<Rightarrow> A s | _ \<Rightarrow> False) \<Longrightarrow> \<exists>s. rs = [Finished s] \<and> A s"
  apply (cases rs)
   apply simp
  apply (rename_tac r rest)
  apply (case_tac r; case_tac rest)
       apply auto
  done

text \<open>The state of a run that has returned is the state of a configuration of the run.\<close>

lemma finished_reaches:
  assumes "outcomes cfg w n c = [Finished s]"
  shows "\<exists>ts. reaches cfg w c (s, ts)"
proof -
  have "Finished s \<in> set (outcomes cfg w n c)" using assms by simp
  from outcomes_reaches[OF this] obtain c' where "reaches cfg w c c'" "fst c' = s" by auto
  then have "reaches cfg w c (s, snd c')" by (metis prod.collapse)
  then show ?thesis by blast
qed

section \<open>Depth bound\<close>

lemma crawl_paginate_eq:
  "crawl_paginate s domain pls d
     = (if filter (\<lambda>v. v \<notin> set (visited_categories s domain)) pls = [] then Done
        else Pags d (map (\<lambda>v. Start From_pagination v d)
                       (filter (\<lambda>v. v \<notin> set (visited_categories s domain)) pls)))"
  by (auto simp: crawl_paginate_def pagination_tasks_def create_task_def comp_def
           split: list.splits)

lemma crawl_paginate_unvisited:
  assumes "v \<in> set pls" and "v \<notin> set (visited_categories s domain)"
  shows "\<exists>cs. crawl_paginate s domain pls d = Pags d cs \<and> Start From_pagination v d \<in> set cs
              \<and> (\<forall>c\<in>set cs. \<exists>v'. c = Start From_pagination v' d)"
proof -
  let ?f = "filter (\<lambda>v. v \<notin> set (visited_categories s domain)) pls"
  have v: "v \<in> set ?f" using assms by simp
  have "?f \<noteq> []" using assms by (auto simp: filter_empty_conv)
  then have "crawl_paginate s domain pls d = Pags d (map (\<lambda>v. Start From_pagination v d) ?f)"
    by (simp add: crawl_paginate_eq)
  moreover have "Start From_pagination v d \<in> set (map (\<lambda>v. Start From_pagination v d) ?f)"
    using v by (simp del: set_filter)
  moreover have "\<forall>c\<in>set (map (\<lambda>v. Start From_pagination v d) ?f). \<exists>v'. c = Start From_pagination v' d"
    by auto
  ultimately show ?thesis by blast
qed

lemma crawl_expand_at_bound:
  "\<not> int d < max_depth cfg
   \<Longrightarrow> snd (crawl_expand cfg w domain d body s)
       = crawl_paginate (fst (crawl_expand cfg w domain d body s)) domain
           (snd (snd (classify_page cfg w domain s body))) d"
  using crawl_expand_cases[of cfg w domain d body s] by blast

text \<open>
  Claim C5. In every configuration of a run of \<open>crawl_domains\<close>, every coroutine that the
  subcategory loop has started ran at a depth between 1 and \<open>max_depth\<close>; a coroutine
  that waits for its subcategory coroutines has a depth below \<open>max_depth\<close> and they have
  its depth plus one, and one that waits for its pagination coroutines has them at its
  own depth. The expansion of a page at depth \<open>d\<close> creates subcategory coroutines only
  when \<open>d < max_depth\<close>, at \<open>d + 1\<close>, and otherwise goes on to the pagination links at
  once; when the subcategory coroutines have returned it goes on to them too. An
  unvisited pagination link gets a coroutine at the depth \<open>d\<close> of the page, whatever
  \<open>d\<close> is. So at \<open>d = max_depth\<close>, where no subcategory coroutine is created, the
  expansion of a page with an unvisited pagination link creates the coroutine for it, and
  this coroutine passes the entry check, marks the link visited and goes on to fetch it;
  the fetch makes its request as soon as a slot of the semaphore is free.
\<close>

theorem subcategory_depth_bound:
  "(reaches cfg w (initial cfg domains) (s, ts)
      \<longrightarrow> depth_ok cfg (trace s) \<and> list_all (domain_depths cfg) ts)
   \<and> (\<exists>s' t'. crawl_category_pages cfg w domain s (Parse u d body) = [(s', t')]
         \<and> (t' = crawl_paginate s' domain (snd (snd (classify_page cfg w domain s body))) d
            \<or> int d < max_depth cfg
              \<and> (\<exists>cs. t' = Subs d (snd (snd (classify_page cfg w domain s body))) cs
                    \<and> (\<forall>c\<in>set cs. \<exists>v. c = Start From_subcategories v (d + 1)))))
   \<and> (list_all is_done cs
        \<longrightarrow> crawl_category_pages cfg w domain s (Subs d pls cs)
              = [(s, crawl_paginate s domain pls d)])
   \<and> (v \<in> set pls \<and> v \<notin> set (visited_categories s domain)
        \<longrightarrow> (\<exists>cs. crawl_paginate s domain pls d = Pags d cs
                \<and> Start From_pagination v d \<in> set cs
                \<and> (\<forall>c\<in>set cs. \<exists>v'. c = Start From_pagination v' d)))
   \<and> (int d = max_depth cfg \<and> v \<in> set (page_links w domain body) \<and> is_pagination_url cfg v
       \<and> v \<notin> set (visited_categories s domain)
        \<longrightarrow> (\<exists>s' cs. crawl_category_pages cfg w domain s (Parse u d body) = [(s', Pags d cs)]
                \<and> Start From_pagination v d \<in> set cs
                \<and> crawl_category_pages cfg w domain s' (Start From_pagination v d)
                    = [(mark_visited domain v (emit (Crawl From_pagination v d) s'), Fetch v d 0)]))
   \<and> (0 < free_slots s
        \<longrightarrow> (\<exists>s' t'. crawl_category_pages cfg w domain s (Fetch v d 0) = [(s', t')]
                \<and> Get v \<in> set (trace s')))"
proof -
  let ?e = "crawl_expand cfg w domain d body s"
  let ?pls = "snd (snd (classify_page cfg w domain s body))"
  have 1: "reaches cfg w (initial cfg domains) (s, ts)
      \<longrightarrow> depth_ok cfg (trace s) \<and> list_all (domain_depths cfg) ts"
    using reachable_depths[of cfg w domains "(s, ts)"] by simp
  have step: "crawl_category_pages cfg w domain s (Parse u d body) = [(fst ?e, snd ?e)]" by simp
  have "snd ?e = crawl_paginate (fst ?e) domain ?pls d
        \<or> int d < max_depth cfg
          \<and> (\<exists>cs. snd ?e = Subs d ?pls cs \<and> (\<forall>c\<in>set cs. \<exists>v. c = Start From_subcategories v (d + 1)))"
    using crawl_expand_cases[of cfg w domain d body s] by blast
  then have 2: "\<exists>s' t'. crawl_category_pages cfg w domain s (Parse u d body) = [(s', t')]
         \<and> (t' = crawl_paginate s' domain ?pls d
            \<or> int d < max_depth cfg
              \<and> (\<exists>cs. t' = Subs d ?pls cs \<and> (\<forall>c\<in>set cs. \<exists>v. c = Start From_subcategories v (d + 1))))"
    using step by blast
  have 3: "list_all is_done cs
        \<longrightarrow> crawl_category_pages cfg w domain s (Subs d pls cs) = [(s, crawl_paginate s domain pls d)]"
    by simp
  have 4: "v \<in> set pls \<and> v \<notin> set (visited_categories s domain)
        \<longrightarrow> (\<exists>cs. crawl_paginate s domain pls d = Pags d cs
                \<and> Start From_pagination v d \<in> set cs
                \<and> (\<forall>c\<in>set cs. \<exists>v'. c = Start From_pagination v' d))"
    using crawl_paginate_unvisited[of v pls s domain d] by blast
  have 5: "\<exists>s' cs. crawl_category_pages cfg w domain s (Parse u d body) = [(s', Pags d cs)]
                \<and> Start From_pagination v d \<in> set cs
                \<and> crawl_category_pages cfg w domain s' (Start From_pagination v d)
                    = [(mark_visited domain v (emit (Crawl From_pagination v d) s'), Fetch v d 0)]"
    if d: "int d = max_depth cfg" and l: "v \<in> set (page_links w domain body)"
      and p: "is_pagination_url cfg v" and nv: "v \<notin> set (visited_categories s domain)"
  proof -
    have vis: "visited_categories (fst ?e) = visited_categories s" by (simp add: crawl_expand_fst)
    have "v \<in> set ?pls" using l p classify_page_sets(3)[of cfg w domain s body] by simp
    from crawl_paginate_unvisited[OF this, of "fst ?e" domain d] nv vis obtain cs where
      cs: "crawl_paginate (fst ?e) domain ?pls d = Pags d cs" "Start From_pagination v d \<in> set cs"
      by auto
    have "snd ?e = Pags d cs" using crawl_expand_at_bound[of d cfg w domain body s] d cs(1) by simp
    then have a: "crawl_category_pages cfg w domain s (Parse u d body) = [(fst ?e, Pags d cs)]"
      using step by simp
    have b: "crawl_category_pages cfg w domain (fst ?e) (Start From_pagination v d)
               = [(mark_visited domain v (emit (Crawl From_pagination v d) (fst ?e)), Fetch v d 0)]"
      using nv vis d by (simp add: crawl_enter_def Let_def)
    show ?thesis using a b cs(2) by blast
  qed
  have 6: "\<exists>s' t'. crawl_category_pages cfg w domain s (Fetch v d 0) = [(s', t')]
                \<and> Get v \<in> set (trace s')" if "0 < free_slots s"
  proof -
    from attempt_state(4)[of cfg w v 0 s] have "Get v \<in> set (trace (fst (attempt cfg w v 0 s)))"
      by auto
    then show ?thesis using that by simp
  qed
  show ?thesis using 1 2 3 4 5 6 by blast
qed

theorem subcategory_depth_bound_witness:
  "max_depth default_config = 3
   \<and> (case outcomes default_config chain_site 40 (initial default_config [''shop.test'']) of
        [Finished s] \<Rightarrow>
          depth_ok default_config (trace s)
          \<and> Crawl From_subcategories ''https://shop.test/c/4'' 3 \<in> set (trace s)
          \<and> Crawl From_pagination ''https://shop.test/c/4?page=2'' 3 \<in> set (trace s)
          \<and> Get ''https://shop.test/c/4?page=2'' \<in> set (trace s)
          \<and> ''https://shop.test/c/5'' \<notin> set (visited_categories s ''shop.test'')
      | _ \<Rightarrow> False)
   \<and> (\<exists>s' cs. crawl_category_pages default_config chain_site ''shop.test'' (init_state default_config)
                  (Parse ''https://shop.test/c/4'' 3 ''page https://shop.test/c/4'')
                = [(s', Pags 3 cs)]
          \<and> Start From_pagination ''https://shop.test/c/4?page=2'' 3 \<in> set cs
          \<and> crawl_category_pages default_config chain_site ''shop.test'' s'
                  (Start From_pagination ''https://shop.test/c/4?page=2'' 3)
                = [(mark_visited ''shop.test'' ''https://shop.test/c/4?page=2''
                      (emit (Crawl From_pagination ''https://shop.test/c/4?page=2'' 3) s'),
                    Fetch ''https://shop.test/c/4?page=2'' 3 0)])"
proof -
  let ?o = "outcomes default_config chain_site 40 (initial default_config [''shop.test''])"
  have md: "max_depth default_config = 3" by (simp add: default_config_def CrawlerConfig_def)
  have "case ?o of
        [Finished s] \<Rightarrow>
          Crawl From_subcategories ''https://shop.test/c/4'' 3 \<in> set (trace s)
          \<and> Crawl From_pagination ''https://shop.test/c/4?page=2'' 3 \<in> set (trace s)
          \<and> Get ''https://shop.test/c/4?page=2'' \<in> set (trace s)
          \<and> ''https://shop.test/c/5'' \<notin> set (visited_categories s ''shop.test'')
      | _ \<Rightarrow> False"
    by code_simp
  from single_finished[OF this] obtain s where o: "?o = [Finished s]"
    and run: "Crawl From_subcategories ''https://shop.test/c/4'' 3 \<in> set (trace s)"
      "Crawl From_pagination ''https://shop.test/c/4?page=2'' 3 \<in> set (trace s)"
      "Get ''https://shop.test/c/4?page=2'' \<in> set (trace s)"
      "''https://shop.test/c/5'' \<notin> set (visited_categories s ''shop.test'')"
    by blast
  from finished_reaches[OF o] obtain ts where
    r: "reaches default_config chain_site (initial default_config [''shop.test'']) (s, ts)" by blast
  have l: "''https://shop.test/c/4?page=2''
             \<in> set (page_links chain_site ''shop.test'' ''page https://shop.test/c/4'')"
    by code_simp
  have p: "is_pagination_url default_config ''https://shop.test/c/4?page=2''" by code_simp
  have nv: "''https://shop.test/c/4?page=2''
              \<notin> set (visited_categories (init_state default_config) ''shop.test'')"
    by (simp add: init_state_def)
  from subcategory_depth_bound [where cfg = default_config and w = chain_site
      and domains = "[''shop.test'']" and s = s and ts = ts] r
  have 1: "depth_ok default_config (trace s)" by blast
  from subcategory_depth_bound [where cfg = default_config and w = chain_site
      and domain = "''shop.test''" and s = "init_state default_config" and d = 3
      and u = "''https://shop.test/c/4''" and body = "''page https://shop.test/c/4''"
      and v = "''https://shop.test/c/4?page=2''"] md l p nv
  have 2: "\<exists>s' cs. crawl_category_pages default_config chain_site ''shop.test'' (init_state default_config)
                  (Parse ''https://shop.test/c/4'' 3 ''page https://shop.test/c/4'')
                = [(s', Pags 3 cs)]
          \<and> Start From_pagination ''https://shop.test/c/4?page=2'' 3 \<in> set cs
          \<and> crawl_category_pages default_config chain_site ''shop.test'' s'
                  (Start From_pagination ''https://shop.test/c/4?page=2'' 3)
                = [(mark_visited ''shop.test'' ''https://shop.test/c/4?page=2''
                      (emit (Crawl From_pagination ''https://shop.test/c/4?page=2'' 3) s'),
                    Fetch ''https://shop.test/c/4?page=2'' 3 0)]"
    by simp
  show ?thesis using md 1 2 run by (simp add: o)
qed

section \<open>The set \<open>visited_urls\<close> and the root page\<close>

lemma root_fetch_keeps_sets:
  assumes "(s', t') \<in> set (crawl_domain cfg w s t)"
    and "t = DStart domain0 \<or> t = DFetch domain k \<or> t = DParse domain body"
  shows "visited_categories s' = visited_categories s \<and> product_urls s' = product_urls s
         \<and> visited_urls s' = visited_urls s"
  using assms(1)
proof (cases rule: crawl_domain_cases)
  case (Attempt domain' k')
  then show ?thesis using attempt_state(1-3)[of cfg w "''https://'' @ domain'" k' s] by simp
next
  case (Batch_wake domain' cs batches)
  then show ?thesis using assms(2) by simp
next
  case (Batch_child domain' batches pre c post c')
  then show ?thesis using assms(2) by simp
qed simp_all

text \<open>
  Claim C9, as the source has it. No step of any coroutine changes \<open>visited_urls\<close>, so in
  every configuration of a run of \<open>crawl_domains\<close> it is empty and the early return of
  \<open>crawl_domain\<close> is not taken: a \<open>crawl_domain\<close> coroutine that starts goes on to fetch
  the root URL, and the fetch requests it as soon as a slot of the semaphore is free. The
  steps of \<open>crawl_domain\<close> up to the parsed root page record nothing in any set. A URL is
  in \<open>visited_categories\<close> only if it is a link of a page that was fetched with status
  200 and is a category or pagination URL; this holds for the root URL as for any other.
\<close>

theorem visited_urls_never_written:
  "(reaches cfg w (initial cfg domains) (s, ts)
      \<longrightarrow> visited_urls s = (\<lambda>d. [])
        \<and> crawl_domain cfg w s (DStart domain0) = [(s, DFetch (normalize_domain domain0) 0)]
        \<and> (\<forall>d. \<forall>v\<in>set (visited_categories s d).
              linked w d (trace s) v \<and> (is_category_url cfg v \<or> is_pagination_url cfg v)))
   \<and> (c' \<in> set (nexts cfg w c) \<longrightarrow> visited_urls (fst c') = visited_urls (fst c))
   \<and> ((t = DStart domain0 \<or> t = DFetch domain k \<or> t = DParse domain body)
       \<and> (s', t') \<in> set (crawl_domain cfg w s t)
        \<longrightarrow> visited_categories s' = visited_categories s \<and> product_urls s' = product_urls s
          \<and> visited_urls s' = visited_urls s)
   \<and> (0 < free_slots s
        \<longrightarrow> (\<exists>s' t' ext. crawl_domain cfg w s (DFetch domain 0) = [(s', t')]
                \<and> trace s' = trace s @ delay_events cfg @ [Get (''https://'' @ domain)] @ ext))"
proof -
  have 1: "visited_urls s = (\<lambda>d. [])
        \<and> crawl_domain cfg w s (DStart domain0) = [(s, DFetch (normalize_domain domain0) 0)]
        \<and> (\<forall>d. \<forall>v\<in>set (visited_categories s d).
              linked w d (trace s) v \<and> (is_category_url cfg v \<or> is_pagination_url cfg v))"
    if "reaches cfg w (initial cfg domains) (s, ts)"
  proof -
    from reachable_found[OF that] have e: "visited_urls s = (\<lambda>d. [])" and f: "visited_found cfg w s"
      by simp_all
    have "crawl_domain cfg w s (DStart domain0) = [(s, DFetch (normalize_domain domain0) 0)]"
      using e by (simp add: crawl_domain_enter_def Let_def)
    moreover have "\<forall>d. \<forall>v\<in>set (visited_categories s d).
              linked w d (trace s) v \<and> (is_category_url cfg v \<or> is_pagination_url cfg v)"
      using f by (simp add: visited_found_def list_all_iff found_def)
    ultimately show ?thesis using e by blast
  qed
  have 2: "c' \<in> set (nexts cfg w c) \<longrightarrow> visited_urls (fst c') = visited_urls (fst c)"
    using nexts_grows[of c' cfg w c] by (auto simp: grows_def)
  have 3: "(t = DStart domain0 \<or> t = DFetch domain k \<or> t = DParse domain body)
       \<and> (s', t') \<in> set (crawl_domain cfg w s t)
        \<longrightarrow> visited_categories s' = visited_categories s \<and> product_urls s' = product_urls s
          \<and> visited_urls s' = visited_urls s"
    using root_fetch_keeps_sets[of s' t' cfg w s t domain0 domain k body] by blast
  have 4: "\<exists>s' t' ext. crawl_domain cfg w s (DFetch domain 0) = [(s', t')]
                \<and> trace s' = trace s @ delay_events cfg @ [Get (''https://'' @ domain)] @ ext"
    if "0 < free_slots s"
  proof -
    from attempt_state(4)[of cfg w "''https://'' @ domain" 0 s] obtain ext where
      "trace (fst (attempt cfg w (''https://'' @ domain) 0 s))
         = trace s @ delay_events cfg @ [Get (''https://'' @ domain)] @ ext" by blast
    then show ?thesis using that by simp
  qed
  show ?thesis using 1 2 3 4 by blast
qed

theorem visited_urls_never_written_witness:
  "(case outcomes default_config shop_test 30 (initial default_config [''shop.test'']) of
      [Finished s] \<Rightarrow>
        visited_urls s ''shop.test'' = []
        \<and> crawl_domain default_config shop_test s (DStart ''shop.test'') = [(s, DFetch ''shop.test'' 0)]
        \<and> list_all (\<lambda>v. linked shop_test ''shop.test'' (trace s) v
                         \<and> (is_category_url default_config v \<or> is_pagination_url default_config v))
             (visited_categories s ''shop.test'')
        \<and> ''https://shop.test'' \<notin> set (visited_categories s ''shop.test'')
        \<and> Get ''https://shop.test'' \<in> set (trace s)
    | _ \<Rightarrow> False)"
proof -
  let ?o = "outcomes default_config shop_test 30 (initial default_config [''shop.test''])"
  have "case ?o of
      [Finished s] \<Rightarrow>
        ''https://shop.test'' \<notin> set (visited_categories s ''shop.test'')
        \<and> Get ''https://shop.test'' \<in> set (trace s)
    | _ \<Rightarrow> False"
    by code_simp
  from single_finished[OF this] obtain s where o: "?o = [Finished s]"
    and run: "''https://shop.test'' \<notin> set (visited_categories s ''shop.test'')"
      "Get ''https://shop.test'' \<in> set (trace s)"
    by blast
  from finished_reaches[OF o] obtain ts where
    r: "reaches default_config shop_test (initial default_config [''shop.test'']) (s, ts)" by blast
  have nd: "normalize_domain ''shop.test'' = ''shop.test''" by code_simp
  from visited_urls_never_written [where cfg = default_config and w = shop_test
      and domains = "[''shop.test'']" and s = s and ts = ts and domain0 = "''shop.test''"] r
  have "visited_urls s = (\<lambda>d. [])"
    "crawl_domain default_config shop_test s (DStart ''shop.test'')
       = [(s, DFetch (normalize_domain ''shop.test'') 0)]"
    "\<forall>d. \<forall>v\<in>set (visited_categories s d).
        linked shop_test d (trace s) v \<and> (is_category_url default_config v \<or> is_pagination_url default_config v)"
    by blast+
  then show ?thesis using run nd by (simp add: o list_all_iff)
qed

text \<open>
  The start page \<open>https://shop.test/sale\<close> matches a category pattern and links to
  itself: after its fetch by \<open>crawl_domain\<close> it is crawled as a category page and is
  recorded in \<open>visited_categories\<close>.
\<close>

theorem root_recorded_as_category:
  "(case outcomes default_config self_link_site 20 (initial default_config [''https://shop.test/sale/'']) of
      [Finished s] \<Rightarrow>
        ''https://shop.test/sale'' \<in> set (visited_categories s ''shop.test/sale'')
        \<and> visited_urls s ''shop.test/sale'' = []
    | _ \<Rightarrow> False)"
  by code_simp

text \<open>
  Claim C6 at a start page that links to itself: \<open>crawl_domain\<close> requests
  \<open>https://shop.test/sale\<close>, records nothing, and \<open>crawl_category_pages\<close> requests it
  again. There is one run, and it returns.
\<close>

theorem root_fetched_twice:
  "normalize_domain ''https://shop.test/sale/'' = ''shop.test/sale''
   \<and> (case outcomes default_config self_link_site 20 (initial default_config [''https://shop.test/sale/'']) of
        [Finished s] \<Rightarrow>
          filter is_get (trace s) = [Get ''https://shop.test/sale'', Get ''https://shop.test/sale'']
      | _ \<Rightarrow> False)"
  by code_simp

section \<open>Links that are product and pagination links\<close>

text \<open>
  With the default patterns, a URL that contains \<open>/p/\<close> followed by a digit is both a
  product URL and a pagination URL.
\<close>

lemma p_digit_url_product_and_pagination:
  assumes pp: "product_patterns cfg = default_product_patterns"
    and gp: "pagination_patterns cfg = default_pagination_patterns"
    and dg: "is_digit dg"
    and u: "u = pre @ ''/p/'' @ dg # post"
  shows "is_product_url cfg u \<and> is_pagination_url cfg u"
proof -
  have prod: "is_product_url cfg u"
  proof -
    have "match_here (lits ''/p/'' @ []) (''/p/'' @ dg # post)"
      unfolding match_here_lits by simp
    then have "re_search (lits ''/p/'') u" unfolding u re_search_iff by auto
    moreover have "lits ''/p/'' \<in> set default_product_patterns"
      by (simp add: default_product_patterns_eq)
    ultimately show ?thesis by (auto simp: is_product_url_def pp list_ex_iff)
  qed
  have pag: "is_pagination_url cfg u"
  proof -
    have "match_here (lits ''/p/'' @ [Atom Digit OneOrMore]) (''/p/'' @ dg # post)"
      unfolding match_here_lits using dg by simp
    then have "re_search (lits ''/p/'' @ [Atom Digit OneOrMore]) u" unfolding u re_search_iff by auto
    moreover have "lits ''/p/'' @ [Atom Digit OneOrMore] \<in> set default_pagination_patterns"
      by (simp add: default_pagination_patterns_eq)
    ultimately show ?thesis by (auto simp: is_pagination_url_def gp list_ex_iff)
  qed
  show ?thesis using prod pag by simp
qed

text \<open>
  The expansion of a page puts its product links into the product set of the domain, and
  a product link that is a pagination link is a pagination link of the page: it is held
  until the subcategory coroutines have returned, or gets its coroutine at once, or is
  visited already.
\<close>

lemma expansion_collects_product_links:
  assumes "u \<in> set (page_links w domain body)" and "is_product_url cfg u"
  shows "u \<in> set (product_urls (fst (crawl_expand cfg w domain d body s)) domain)"
  using assms classify_page_sets(1)[of cfg w domain s body] by (simp add: crawl_expand_fst)

lemma expansion_keeps_pagination_links:
  assumes "u \<in> set (page_links w domain body)" and "is_pagination_url cfg u"
  shows "(\<exists>pls cs. snd (crawl_expand cfg w domain d body s) = Subs d pls cs \<and> u \<in> set pls)
         \<or> (\<exists>cs. snd (crawl_expand cfg w domain d body s) = Pags d cs
                 \<and> Start From_pagination u d \<in> set cs)
         \<or> u \<in> set (visited_categories s domain)"
proof (cases "u \<in> set (visited_categories s domain)")
  case True
  then show ?thesis by simp
next
  case False
  let ?e = "crawl_expand cfg w domain d body s"
  let ?pls = "snd (snd (classify_page cfg w domain s body))"
  have u: "u \<in> set ?pls" using assms classify_page_sets(3)[of cfg w domain s body] by simp
  have vis: "visited_categories (fst ?e) = visited_categories s" by (simp add: crawl_expand_fst)
  from crawl_expand_cases[of cfg w domain d body s] show ?thesis
  proof
    assume "snd ?e = crawl_paginate (fst ?e) domain ?pls d"
    then show ?thesis using crawl_paginate_unvisited[OF u, of "fst ?e" domain d] False vis by auto
  next
    assume "int d < max_depth cfg
      \<and> (\<exists>cs. snd ?e = Subs d ?pls cs \<and> cs \<noteq> []
              \<and> (\<forall>c\<in>set cs. \<exists>v. c = Start From_subcategories v (d + 1)
                    \<and> v \<in> set (fst (snd (classify_page cfg w domain s body)))
                    \<and> v \<notin> set (visited_categories s domain)))"
    then show ?thesis using u by blast
  qed
qed

text \<open>
  Claim C10 with one slot. \<open>max_concurrent_requests\<close> is 1. The category page \<open>/c/a\<close>
  links to the category \<open>/c/x\<close>, which the server answers with status 429, and to
  \<open>/p/1\<close>, a product and pagination link. The link is put into the product set. The
  fetch of \<open>/c/x\<close> keeps the only slot for its retry and waits for a second one; no step
  is left, the coroutine of \<open>/c/a\<close> never gets to its pagination links, and \<open>/p/1\<close> is
  neither scheduled nor requested. With ten slots the same crawl returns and has
  requested \<open>/p/1\<close>.
\<close>

theorem product_pagination_link_never_fetched:
  "is_product_url one_slot ''https://shop.test/p/1''
   \<and> is_pagination_url one_slot ''https://shop.test/p/1''
   \<and> max_concurrent_requests one_slot = 1
   \<and> ''https://shop.test/p/1''
        \<in> set (page_links limited_site ''shop.test'' ''page https://shop.test/c/a'')
   \<and> (case outcomes one_slot limited_site 20 (initial one_slot [''shop.test'']) of
        [Stuck s] \<Rightarrow>
          Get ''https://shop.test/c/a'' \<in> set (trace s)
          \<and> ''https://shop.test/p/1'' \<in> set (product_urls s ''shop.test'')
          \<and> ''https://shop.test/p/1'' \<notin> set (visited_categories s ''shop.test'')
          \<and> Get ''https://shop.test/p/1'' \<notin> set (trace s)
          \<and> filter is_crawl (trace s)
              = [Crawl From_batch ''https://shop.test/c/a'' 0,
                 Crawl From_subcategories ''https://shop.test/c/x'' 1]
          \<and> free_slots s = 0
      | _ \<Rightarrow> False)
   \<and> (case outcomes default_config limited_site 20 (initial default_config [''shop.test'']) of
        [Finished s] \<Rightarrow>
          ''https://shop.test/p/1'' \<in> set (product_urls s ''shop.test'')
          \<and> Crawl From_pagination ''https://shop.test/p/1'' 0 \<in> set (trace s)
          \<and> Get ''https://shop.test/p/1'' \<in> set (trace s)
      | _ \<Rightarrow> False)"
  by code_simp

section \<open>Page budget\<close>

text \<open>
  While the budget is not exceeded, at most \<open>remaining_pages\<close> candidates are scheduled,
  all of them from the first \<open>remaining_pages\<close> candidates.
\<close>

lemma subcategory_tasks_within_budget:
  assumes "0 \<le> max_pages_per_domain cfg - int (length (visited_categories s domain))"
  shows "int (length (subcategory_tasks cfg s domain subcategories depth))
           \<le> max_pages_per_domain cfg - int (length (visited_categories s domain))"
    and "map (\<lambda>t. fst (snd t)) (subcategory_tasks cfg s domain subcategories depth)
           = filter (\<lambda>u. u \<notin> set (visited_categories s domain))
               (map (\<lambda>t. fst (snd t)) (subcategory_tasks cfg s domain
                  (take (nat (max_pages_per_domain cfg - int (length (visited_categories s domain)))) subcategories) depth))"
proof -
  let ?k = "max_pages_per_domain cfg - int (length (visited_categories s domain))"
  have "length (filter (\<lambda>u. u \<notin> set (visited_categories s domain)) (take (nat ?k) subcategories)) \<le> nat ?k"
    by (rule le_trans[OF length_filter_le]) simp
  then show "int (length (subcategory_tasks cfg s domain subcategories depth)) \<le> ?k"
    using assms by (auto simp: subcategory_tasks_def py_slice_to_def Let_def)
  show "map (\<lambda>t. fst (snd t)) (subcategory_tasks cfg s domain subcategories depth)
           = filter (\<lambda>u. u \<notin> set (visited_categories s domain))
               (map (\<lambda>t. fst (snd t)) (subcategory_tasks cfg s domain (take (nat ?k) subcategories) depth))"
    using assms by (auto simp: subcategory_tasks_def py_slice_to_def Let_def comp_def)
qed

text \<open>
  Claim C4 at a state over the budget. With \<open>max_pages_per_domain = 1\<close> and two visited
  URLs the remaining budget is \<open>-1\<close>, and \<open>subcategories[:-1]\<close> keeps all candidates
  but the last: of three candidates two are scheduled and crawled. This is so in every
  run: all runs return, and they differ only in which of the two coroutines starts first;
  in a run that starts them in the order of the list the visited URLs and the coroutines
  are in the first of the two orders.
\<close>

theorem budget_truncation_negative_slice:
  "max_pages_per_domain budget_one = 1
   \<and> subcategory_tasks budget_one
        (mark_visited ''shop.test'' ''https://shop.test/c/a?page=2''
           (mark_visited ''shop.test'' ''https://shop.test/c/a'' (init_state budget_one)))
        ''shop.test'' [''https://shop.test/c/x'', ''https://shop.test/c/y'', ''https://shop.test/c/z''] 0
      = [(From_subcategories, ''https://shop.test/c/x'', 1), (From_subcategories, ''https://shop.test/c/y'', 1)]
   \<and> remdups (map (outline ''shop.test'') (outcomes budget_one budget_site 30 (initial budget_one [''shop.test''])))
      = [Some ([''https://shop.test/c/a'', ''https://shop.test/c/a?page=2'',
                ''https://shop.test/c/x'', ''https://shop.test/c/y''],
               [Crawl From_batch ''https://shop.test/c/a'' 0,
                Crawl From_pagination ''https://shop.test/c/a?page=2'' 0,
                Crawl From_subcategories ''https://shop.test/c/x'' 1,
                Crawl From_subcategories ''https://shop.test/c/y'' 1]),
         Some ([''https://shop.test/c/a'', ''https://shop.test/c/a?page=2'',
                ''https://shop.test/c/y'', ''https://shop.test/c/x''],
               [Crawl From_batch ''https://shop.test/c/a'' 0,
                Crawl From_pagination ''https://shop.test/c/a?page=2'' 0,
                Crawl From_subcategories ''https://shop.test/c/y'' 1,
                Crawl From_subcategories ''https://shop.test/c/x'' 1])]"
  by code_simp

section \<open>End-to-end scenario\<close>

text \<open>
  In the end-to-end scenario the root URL is requested and is not in the visited set, and
  \<open>https://shop.test/p/42\<close> is in it.
\<close>

theorem end_to_end_visited_set_differs:
  "(case outcomes default_config shop_test 30 (initial default_config [''shop.test'']) of
      [Finished s] \<Rightarrow>
        ''https://shop.test'' \<notin> set (visited_categories s ''shop.test'')
        \<and> ''https://shop.test/p/42'' \<in> set (visited_categories s ''shop.test'')
        \<and> Get ''https://shop.test'' \<in> set (trace s)
    | _ \<Rightarrow> False)"
  by code_simp

text \<open>
  Claim C1, as the source has it. For the site \<open>shop.test\<close> of the scenario there is one
  run of \<open>crawl_domain\<close>, and it returns; the product set is
  \<open>{https://shop.test/p/42}\<close>, and the visited URLs other than the root are \<open>/c/shoes\<close>,
  \<open>/c/shoes?page=2\<close> and also \<open>/p/42\<close>, which the default pagination pattern
  \<open>/p/(\d+)\<close> makes a pagination link of the listing page.
\<close>

theorem end_to_end_scenario:
  "\<exists>s. outcomes default_config shop_test 30 (initial default_config [''shop.test'']) = [Finished s]
     \<and> set (product_urls s ''shop.test'') = {''https://shop.test/p/42''}
     \<and> set (visited_categories s ''shop.test'') - {''https://shop.test''}
         = {''https://shop.test/c/shoes'', ''https://shop.test/c/shoes?page=2'', ''https://shop.test/p/42''}"
proof -
  have "(case outcomes default_config shop_test 30 (initial default_config [''shop.test'']) of
      [Finished s] \<Rightarrow>
        product_urls s ''shop.test'' = [''https://shop.test/p/42'']
        \<and> visited_categories s ''shop.test''
            = [''https://shop.test/c/shoes'', ''https://shop.test/c/shoes?page=2'', ''https://shop.test/p/42'']
    | _ \<Rightarrow> False)"
    by code_simp
  from single_finished[OF this] obtain s where
    "outcomes default_config shop_test 30 (initial default_config [''shop.test'']) = [Finished s]"
    "product_urls s ''shop.test'' = [''https://shop.test/p/42'']"
    "visited_categories s ''shop.test''
       = [''https://shop.test/c/shoes'', ''https://shop.test/c/shoes?page=2'', ''https://shop.test/p/42'']"
    by blast
  then show ?thesis by auto
qed

end
